theory Spec2Isabelle
  imports Main "HOL-Library.Multiset"
begin

section \<open>LoadJS 2.1.2: the bundle registry and the file load coordinator\<close>

text \<open>
  The development embeds \<^verbatim>\<open>ajax/libs/loadjs/2.1.2/loadjs.umd.js\<close>.

  \<^item> The three module-level objects \<^verbatim>\<open>bundleIdCache\<close>, \<^verbatim>\<open>bundleResultCache\<close> and
    \<^verbatim>\<open>bundleCallbackQueue\<close> are finite maps from strings (their own properties). Bundle
    ids that name a member of \<^verbatim>\<open>Object.prototype\<close> (such as \<^verbatim>\<open>constructor\<close>) are not
    covered: the maps have no inherited entries.
  \<^item> Arrays that are shared and mutated (\<^verbatim>\<open>pathsNotFound\<close> of a \<^verbatim>\<open>loadFiles\<close> call is
    stored in \<^verbatim>\<open>bundleResultCache\<close> by reference) live in a store of arrays, addressed
    by allocation number.
  \<^item> The two closures named \<^verbatim>\<open>fn\<close> are records of their captured variables, kept in
    two stores: one record per call of \<^verbatim>\<open>subscribe\<close>, one per call of \<^verbatim>\<open>loadFiles\<close>.
    A queued handler is the index of its \<^verbatim>\<open>subscribe\<close> record.
  \<^item> The functions handed in by the caller (\<^verbatim>\<open>args.success\<close>, \<^verbatim>\<open>args.fail\<close>) are
    opaque: a call of one of them, or of \<^verbatim>\<open>devnull\<close> in its place, is appended to the
    list \<open>calls\<close> together with its argument. They do not call back into the library
    and do not write to the arrays they receive.
  \<^item> The document is the list of elements appended to \<^verbatim>\<open>doc.head\<close>; the browser
    delivers an event to an element by \<open>onevent\<close>.
\<close>

subsection \<open>Values\<close>

type_synonym addr = nat
type_synonym callback = nat

text \<open>The options object: \<^verbatim>\<open>{success, fail, async}\<close>, every property optional.\<close>

record args =
  success :: "callback option"
  fail :: "callback option"
  async :: "bool option"

definition empty_args :: args where
  "empty_args = \<lparr>success = None, fail = None, async = None\<rparr>"

text \<open>A parameter documented as \<^verbatim>\<open>(string|string[])\<close>.\<close>

datatype strs = One string | Many "string list"

text \<open>\<^verbatim>\<open>x = x.push ? x : [x]\<close>\<close>

fun listify :: "strs \<Rightarrow> string list" where
  "listify (One x) = [x]"
| "listify (Many xs) = xs"

text \<open>The second parameter of \<^verbatim>\<open>loadjs\<close>: absent, a string or an options object.\<close>

datatype arg1 = Undefined | Str string | Obj args

datatype error = LoadJS

text \<open>Who made a call of a caller's function: the callback of a \<^verbatim>\<open>loadjs\<close> call
  (by index of its \<^verbatim>\<open>loadFiles\<close> record) or of a \<^verbatim>\<open>ready\<close> call (by index of its
  \<^verbatim>\<open>subscribe\<close> record).\<close>

datatype origin = OfLoad nat | OfReady nat

text \<open>
  The calls the library makes, in the order it makes them.
  \<open>Fn_subscribe w b xs\<close> is a call \<^verbatim>\<open>fn(bundleId, pathsNotFound)\<close> of the handler of
  \<^verbatim>\<open>subscribe\<close> record \<open>w\<close>, with the contents of the array at that moment;
  \<open>Fn_loadFiles l p r d\<close> is a call \<^verbatim>\<open>fn(path, result, defaultPrevented)\<close> of the
  handler of \<^verbatim>\<open>loadFiles\<close> record \<open>l\<close>;
  \<open>Success\<close> is \<^verbatim>\<open>(args.success || devnull)()\<close> and \<open>Fail\<close> is
  \<^verbatim>\<open>(args.fail || devnull)(xs)\<close>, where \<open>None\<close> stands for \<^verbatim>\<open>devnull\<close>.
\<close>

datatype call =
    Fn_subscribe nat string "string list"
  | Fn_loadFiles nat string char bool
  | Success origin "callback option"
  | Fail origin "callback option" "string list"

text \<open>Variables captured by \<^verbatim>\<open>fn\<close> in \<^verbatim>\<open>subscribe\<close> (lines 26-41).\<close>

record subscription =
  sub_bundleIds :: "string list"
  sub_depsNotFound :: "string list"
  sub_numWaiting :: int
  sub_callbackFn :: args

text \<open>Variables captured by \<^verbatim>\<open>fn\<close> in \<^verbatim>\<open>loadFiles\<close> (lines 139-159); its
  \<^verbatim>\<open>callbackFn\<close> is the closure of lines 192-199 over \<^verbatim>\<open>bundleId\<close> and \<^verbatim>\<open>args\<close>.\<close>

record batch =
  lf_paths :: "string list"
  lf_numWaiting :: int
  lf_pathsNotFound :: addr
  lf_bundleId :: "string option"
  lf_args :: args

text \<open>An element made by \<^verbatim>\<open>loadFile\<close> (lines 91-131) with what its event handler
  captured. \<open>el_async\<close> is \<open>None\<close> on a \<^verbatim>\<open>link\<close>, where the property is not set.\<close>

record element =
  el_isCss :: bool
  el_path :: string
  el_async :: "bool option"
  el_callbackFn :: nat

text \<open>What the handler reads from an event and from its element: the event type, its
  \<^verbatim>\<open>defaultPrevented\<close>, whether \<^verbatim>\<open>'hideFocus' in e\<close>, and \<^verbatim>\<open>e.sheet.cssText\<close>
  (\<open>None\<close> when reading it throws).\<close>

datatype ev_type = Load | Error | Beforeload

fun type_name :: "ev_type \<Rightarrow> string" where
  "type_name Load = ''load''"
| "type_name Error = ''error''"
| "type_name Beforeload = ''beforeload''"

record event =
  ev_type :: ev_type
  defaultPrevented :: bool
  hideFocus :: bool
  cssText :: "string option"

record state =
  bundleIdCache :: "string \<rightharpoonup> bool"
  bundleResultCache :: "string \<rightharpoonup> addr"
  bundleCallbackQueue :: "string \<rightharpoonup> nat list"
  arrays :: "addr \<Rightarrow> string list"
  n_arrays :: nat
  subscriptions :: "nat \<Rightarrow> subscription"
  n_subscriptions :: nat
  batches :: "nat \<Rightarrow> batch"
  n_batches :: nat
  head :: "element list"
  calls :: "call list"

definition init :: state where
  "init = \<lparr>bundleIdCache = Map.empty, bundleResultCache = Map.empty,
     bundleCallbackQueue = Map.empty, arrays = (\<lambda>_. []), n_arrays = 0,
     subscriptions = (\<lambda>_. \<lparr>sub_bundleIds = [], sub_depsNotFound = [], sub_numWaiting = 0,
        sub_callbackFn = empty_args\<rparr>), n_subscriptions = 0,
     batches = (\<lambda>_. \<lparr>lf_paths = [], lf_numWaiting = 0, lf_pathsNotFound = 0,
        lf_bundleId = None, lf_args = empty_args\<rparr>), n_batches = 0,
     head = [], calls = []\<rparr>"

subsection \<open>Arrays and calls\<close>

text \<open>The array literal \<^verbatim>\<open>[]\<close>: a fresh array.\<close>

definition new_array :: "state \<Rightarrow> addr \<times> state" where
  "new_array s = (n_arrays s, s\<lparr>arrays := (arrays s)(n_arrays s := []),
     n_arrays := Suc (n_arrays s)\<rparr>)"

text \<open>\<^verbatim>\<open>a.push(x)\<close>\<close>

definition push :: "addr \<Rightarrow> string \<Rightarrow> state \<Rightarrow> state" where
  "push a x s = s\<lparr>arrays := (arrays s)(a := arrays s a @ [x])\<rparr>"

definition call_success :: "origin \<Rightarrow> args \<Rightarrow> state \<Rightarrow> state" where
  "call_success who a s = s\<lparr>calls := calls s @ [Success who (success a)]\<rparr>"

definition call_fail :: "origin \<Rightarrow> args \<Rightarrow> string list \<Rightarrow> state \<Rightarrow> state" where
  "call_fail who a xs s = s\<lparr>calls := calls s @ [Fail who (fail a) xs]\<rparr>"

subsection \<open>The bundle registry\<close>

text \<open>The callback \<^verbatim>\<open>loadjs.ready\<close> hands to \<^verbatim>\<open>subscribe\<close> (lines 210-214).\<close>

definition callbackFn_ready :: "nat \<Rightarrow> args \<Rightarrow> string list \<Rightarrow> state \<Rightarrow> state" where
  "callbackFn_ready w a depsNotFound s =
     (if length depsNotFound \<noteq> 0 then call_fail (OfReady w) a depsNotFound s
      else call_success (OfReady w) a s)"

text \<open>\<^verbatim>\<open>fn\<close> of \<^verbatim>\<open>subscribe\<close> (lines 36-41).\<close>

definition fn_subscribe :: "nat \<Rightarrow> string \<Rightarrow> addr \<Rightarrow> state \<Rightarrow> state" where
  "fn_subscribe w bundleId pathsNotFound s =
     (let s0 = s\<lparr>calls := calls s @ [Fn_subscribe w bundleId (arrays s pathsNotFound)]\<rparr>;
          c = subscriptions s0 w;
          deps = (if length (arrays s0 pathsNotFound) \<noteq> 0
                  then sub_depsNotFound c @ [bundleId] else sub_depsNotFound c);
          n = sub_numWaiting c - 1;
          s1 = s0\<lparr>subscriptions := (subscriptions s0)
                 (w := c\<lparr>sub_depsNotFound := deps, sub_numWaiting := n\<rparr>)\<rparr>
      in if n = 0 then callbackFn_ready w (sub_callbackFn c) deps s1 else s1)"

text \<open>The loop \<^verbatim>\<open>while (i--)\<close> of \<^verbatim>\<open>subscribe\<close> (lines 44-57): the index runs from the
  last id down to the first.\<close>

fun subscribe_loop :: "nat \<Rightarrow> string list \<Rightarrow> nat \<Rightarrow> state \<Rightarrow> state" where
  "subscribe_loop w bundleIds 0 s = s"
| "subscribe_loop w bundleIds (Suc i) s =
     (let bundleId = bundleIds ! i in
      subscribe_loop w bundleIds i
        (case bundleResultCache s bundleId of
           Some r \<Rightarrow> fn_subscribe w bundleId r s
         | None \<Rightarrow> s\<lparr>bundleCallbackQueue := (bundleCallbackQueue s)(bundleId \<mapsto>
               (case bundleCallbackQueue s bundleId of None \<Rightarrow> [] | Some q \<Rightarrow> q) @ [w])\<rparr>))"

definition subscribe :: "strs \<Rightarrow> args \<Rightarrow> state \<Rightarrow> state" where
  "subscribe bundleIds callbackFn s =
     (let ids = listify bundleIds;
          w = n_subscriptions s;
          s1 = s\<lparr>subscriptions := (subscriptions s)
                 (w := \<lparr>sub_bundleIds = ids, sub_depsNotFound = [],
                        sub_numWaiting = int (length ids), sub_callbackFn = callbackFn\<rparr>),
               n_subscriptions := Suc w\<rparr>
      in subscribe_loop w ids (length ids) s1)"

text \<open>\<^verbatim>\<open>q.splice(0, 1)\<close> on the queue of \<open>bundleId\<close>.\<close>

definition splice_first :: "string \<Rightarrow> state \<Rightarrow> state" where
  "splice_first bundleId s = s\<lparr>bundleCallbackQueue := (bundleCallbackQueue s)
     (bundleId := map_option (drop 1) (bundleCallbackQueue s bundleId))\<rparr>"

text \<open>The loop \<^verbatim>\<open>while (q.length)\<close> of \<^verbatim>\<open>publish\<close> (lines 79-82); \<open>q\<close> is the array
  object held by \<^verbatim>\<open>bundleCallbackQueue[bundleId]\<close>.\<close>

function publish_loop :: "string \<Rightarrow> addr \<Rightarrow> state \<Rightarrow> state" where
  "publish_loop bundleId pathsNotFound s =
     (case bundleCallbackQueue s bundleId of
        None \<Rightarrow> s
      | Some q \<Rightarrow>
          if length q \<noteq> 0
          then publish_loop bundleId pathsNotFound
                 (splice_first bundleId (fn_subscribe (hd q) bundleId pathsNotFound s))
          else s)"
  by pat_completeness auto

termination
  by (relation "measure (\<lambda>(b, p, s). case bundleCallbackQueue s b of None \<Rightarrow> 0 | Some q \<Rightarrow> length q)")
     (auto simp: splice_first_def fn_subscribe_def callbackFn_ready_def call_fail_def
        call_success_def Let_def)

text \<open>\<^verbatim>\<open>publish\<close> (lines 66-83). \<open>None\<close> is \<^verbatim>\<open>undefined\<close>; the empty string is falsy
  too.\<close>

definition publish :: "string option \<Rightarrow> addr \<Rightarrow> state \<Rightarrow> state" where
  "publish bundleId pathsNotFound s =
     (case bundleId of
        None \<Rightarrow> s
      | Some b \<Rightarrow>
          if b = [] then s
          else
            let q = bundleCallbackQueue s b;
                s1 = s\<lparr>bundleResultCache := (bundleResultCache s)(b \<mapsto> pathsNotFound)\<rparr>
            in if q = None then s1 else publish_loop b pathsNotFound s1)"

subsection \<open>The file load coordinator\<close>

text \<open>\<^verbatim>\<open>/\.css$/.test(path)\<close>\<close>

definition is_css :: "string \<Rightarrow> bool" where
  "is_css path = (4 \<le> length path \<and> drop (length path - 4) path = ''.css'')"

text \<open>\<^verbatim>\<open>loadFile\<close> (lines 91-131): makes the element, sets its handlers and appends it
  to \<^verbatim>\<open>doc.head\<close>.\<close>

definition loadFile :: "string \<Rightarrow> nat \<Rightarrow> bool option \<Rightarrow> state \<Rightarrow> state" where
  "loadFile path callbackFn async_arg s =
     (let e = (if is_css path
               then \<lparr>el_isCss = True, el_path = path, el_async = None,
                     el_callbackFn = callbackFn\<rparr>
               else \<lparr>el_isCss = False, el_path = path,
                     el_async = Some (case async_arg of None \<Rightarrow> True | Some a \<Rightarrow> a),
                     el_callbackFn = callbackFn\<rparr>)
      in s\<lparr>head := head s @ [e]\<rparr>)"

text \<open>The callback \<^verbatim>\<open>loadjs\<close> hands to \<^verbatim>\<open>loadFiles\<close> (lines 192-199).\<close>

definition callbackFn_loadjs :: "nat \<Rightarrow> string option \<Rightarrow> args \<Rightarrow> addr \<Rightarrow> state \<Rightarrow> state" where
  "callbackFn_loadjs l bundleId a pathsNotFound s =
     publish bundleId pathsNotFound
       (if length (arrays s pathsNotFound) \<noteq> 0
        then call_fail (OfLoad l) a (arrays s pathsNotFound) s
        else call_success (OfLoad l) a s)"

text \<open>\<^verbatim>\<open>fn\<close> of \<^verbatim>\<open>loadFiles\<close> (lines 146-159).\<close>

definition fn_loadFiles :: "nat \<Rightarrow> string \<Rightarrow> char \<Rightarrow> bool \<Rightarrow> state \<Rightarrow> state" where
  "fn_loadFiles l path result prevented s =
     (let s0 = s\<lparr>calls := calls s @ [Fn_loadFiles l path result prevented]\<rparr>;
          pathsNotFound = lf_pathsNotFound (batches s0 l);
          s1 = (if result = CHR ''e'' then push pathsNotFound path s0 else s0)
      in if result = CHR ''b'' \<and> \<not> prevented then s1
         else
           let s2 = (if result = CHR ''b'' then push pathsNotFound path s1 else s1);
               c = batches s2 l;
               n = lf_numWaiting c - 1;
               s3 = s2\<lparr>batches := (batches s2)(l := c\<lparr>lf_numWaiting := n\<rparr>)\<rparr>
           in if n = 0 then callbackFn_loadjs l (lf_bundleId c) (lf_args c) pathsNotFound s3
              else s3)"

text \<open>The loop \<^verbatim>\<open>for (i=0; i < x; i++) loadFile(paths[i], fn, async)\<close>.\<close>

fun loadFiles_loop :: "nat \<Rightarrow> bool option \<Rightarrow> string list \<Rightarrow> state \<Rightarrow> state" where
  "loadFiles_loop l async_arg [] s = s"
| "loadFiles_loop l async_arg (p # ps) s = loadFiles_loop l async_arg ps (loadFile p l async_arg s)"

text \<open>\<^verbatim>\<open>loadFiles\<close> (lines 139-163).\<close>

definition loadFiles :: "strs \<Rightarrow> string option \<Rightarrow> args \<Rightarrow> bool option \<Rightarrow> state \<Rightarrow> state" where
  "loadFiles paths bundleId a async_arg s =
     (let ps = listify paths;
          l = n_batches s;
          (pathsNotFound, s1) = new_array s;
          s2 = s1\<lparr>batches := (batches s1)
                 (l := \<lparr>lf_paths = ps, lf_numWaiting = int (length ps),
                        lf_pathsNotFound = pathsNotFound, lf_bundleId = bundleId,
                        lf_args = a\<rparr>),
               n_batches := Suc l\<rparr>
      in loadFiles_loop l async_arg ps s2)"

text \<open>\<^verbatim>\<open>loadjs\<close> (lines 173-200). \<^verbatim>\<open>arg1 && arg1.trim\<close> holds of a non-empty string
  only; \<^verbatim>\<open>(bundleId ? arg2 : arg1) || {}\<close> replaces an absent \<^verbatim>\<open>arg2\<close>, an absent
  \<^verbatim>\<open>arg1\<close> and the empty string by \<^verbatim>\<open>{}\<close>.\<close>

definition loadjs_bundleId :: "arg1 \<Rightarrow> string option" where
  "loadjs_bundleId a1 = (case a1 of Str b \<Rightarrow> if b \<noteq> [] then Some b else None | _ \<Rightarrow> None)"

definition loadjs_args :: "arg1 \<Rightarrow> args option \<Rightarrow> args" where
  "loadjs_args a1 a2 =
     (case loadjs_bundleId a1 of
        Some b \<Rightarrow> (case a2 of Some a \<Rightarrow> a | None \<Rightarrow> empty_args)
      | None \<Rightarrow> (case a1 of Obj a \<Rightarrow> a | _ \<Rightarrow> empty_args))"

definition loadjs :: "strs \<Rightarrow> arg1 \<Rightarrow> args option \<Rightarrow> state \<Rightarrow> error + state" where
  "loadjs paths a1 a2 s =
     (let bundleId = loadjs_bundleId a1;
          a = loadjs_args a1 a2
      in case bundleId of
           Some b \<Rightarrow>
             if bundleIdCache s b \<noteq> None then Inl LoadJS
             else Inr (loadFiles paths bundleId a (async a)
                        (s\<lparr>bundleIdCache := (bundleIdCache s)(b \<mapsto> True)\<rparr>))
         | None \<Rightarrow> Inr (loadFiles paths bundleId a (async a) s))"

text \<open>\<^verbatim>\<open>loadjs.ready\<close> (lines 208-217); the returned \<^verbatim>\<open>loadjs\<close> is the library
  itself.\<close>

definition ready :: "strs \<Rightarrow> args \<Rightarrow> state \<Rightarrow> state" where
  "ready deps a s = subscribe deps a s"

text \<open>\<^verbatim>\<open>loadjs.done\<close> (lines 224-226).\<close>

definition done_bundle :: "string \<Rightarrow> state \<Rightarrow> state" where
  "done_bundle bundleId s = (let (a, s1) = new_array s in publish (Some bundleId) a s1)"

subsection \<open>Events\<close>

text \<open>The handler \<^verbatim>\<open>e.onload = e.onerror = e.onbeforeload\<close> (lines 110-127) of the
  \<open>k\<close>-th element of the head; an event for an element that does not exist reaches
  no handler.\<close>

definition event_result :: "element \<Rightarrow> event \<Rightarrow> char" where
  "event_result e ev =
     (let result = hd (type_name (ev_type ev))
      in if el_isCss e \<and> hideFocus ev
         then (case cssText ev of
                 None \<Rightarrow> CHR ''e''
               | Some t \<Rightarrow> if length t = 0 then CHR ''e'' else result)
         else result)"

definition onevent :: "nat \<Rightarrow> event \<Rightarrow> state \<Rightarrow> state" where
  "onevent k ev s =
     (if k < length (head s)
      then
        let e = head s ! k
        in fn_loadFiles (el_callbackFn e) (el_path e) (event_result e ev) (defaultPrevented ev) s
      else s)"

subsection \<open>Runs\<close>

text \<open>What happens to the library: the three calls of its interface and the events
  the browser delivers. A \<^verbatim>\<open>loadjs\<close> call that throws leaves the state as it was.\<close>

datatype op =
    Loadjs strs arg1 "args option"
  | Ready strs args
  | Done string
  | Fire nat event

fun exec :: "op \<Rightarrow> state \<Rightarrow> state" where
  "exec (Loadjs paths a1 a2) s = (case loadjs paths a1 a2 s of Inl e \<Rightarrow> s | Inr s' \<Rightarrow> s')"
| "exec (Ready deps a) s = ready deps a s"
| "exec (Done bundleId) s = done_bundle bundleId s"
| "exec (Fire k ev) s = onevent k ev s"

fun run :: "op list \<Rightarrow> state \<Rightarrow> state" where
  "run [] s = s"
| "run (x # xs) s = run xs (exec x s)"

subsection \<open>Reading the list of calls\<close>

text \<open>The calls of the handler of \<^verbatim>\<open>subscribe\<close> record \<open>w\<close>: the bundle id and the
  failed paths it was given, call by call.\<close>

fun fn_call_of :: "nat \<Rightarrow> call \<Rightarrow> (string \<times> string list) list" where
  "fn_call_of w (Fn_subscribe w' b xs) = (if w' = w then [(b, xs)] else [])"
| "fn_call_of w _ = []"

definition fn_calls :: "nat \<Rightarrow> call list \<Rightarrow> (string \<times> string list) list" where
  "fn_calls w cs = concat (map (fn_call_of w) cs)"

text \<open>The calls of the handler of \<^verbatim>\<open>loadFiles\<close> record \<open>l\<close>: path, result and
  \<^verbatim>\<open>defaultPrevented\<close>.\<close>

fun resolution_of :: "nat \<Rightarrow> call \<Rightarrow> (string \<times> char \<times> bool) list" where
  "resolution_of l (Fn_loadFiles l' p r d) = (if l' = l then [(p, r, d)] else [])"
| "resolution_of l _ = []"

definition resolutions :: "nat \<Rightarrow> call list \<Rightarrow> (string \<times> char \<times> bool) list" where
  "resolutions l cs = concat (map (resolution_of l) cs)"

text \<open>A resolution is terminal unless it is a \<^verbatim>\<open>beforeload\<close> that was not prevented;
  it records a failure when it is an error or a prevented \<^verbatim>\<open>beforeload\<close>.\<close>

definition terminal :: "string \<times> char \<times> bool \<Rightarrow> bool" where
  "terminal x = (case x of (p, r, d) \<Rightarrow> \<not> (r = CHR ''b'' \<and> \<not> d))"

definition records_failure :: "string \<times> char \<times> bool \<Rightarrow> bool" where
  "records_failure x = (case x of (p, r, d) \<Rightarrow> r = CHR ''e'' \<or> (r = CHR ''b'' \<and> d))"

text \<open>The calls of the caller's functions (or \<^verbatim>\<open>devnull\<close>) made by one callback.\<close>

fun by_origin :: "origin \<Rightarrow> call \<Rightarrow> bool" where
  "by_origin who (Success who' f) = (who' = who)"
| "by_origin who (Fail who' f xs) = (who' = who)"
| "by_origin who _ = False"

definition callbacks :: "origin \<Rightarrow> call list \<Rightarrow> call list" where
  "callbacks who cs = filter (by_origin who) cs"

fun is_Fn_subscribe :: "call \<Rightarrow> bool" where
  "is_Fn_subscribe (Fn_subscribe w b xs) = True"
| "is_Fn_subscribe _ = False"

text \<open>The ids a handler was called with a non-empty list of failed paths for.\<close>

definition failed_deps :: "(string \<times> string list) list \<Rightarrow> string list" where
  "failed_deps xs = map fst (filter (\<lambda>x. snd x \<noteq> []) xs)"

text \<open>The one call lines 212-213 make, and the one lines 194-195 make.\<close>

definition ready_call :: "nat \<Rightarrow> args \<Rightarrow> string list \<Rightarrow> call" where
  "ready_call w a deps =
     (if deps = [] then Success (OfReady w) (success a) else Fail (OfReady w) (fail a) deps)"

definition load_call :: "nat \<Rightarrow> args \<Rightarrow> string list \<Rightarrow> call" where
  "load_call l a xs =
     (if xs = [] then Success (OfLoad l) (success a) else Fail (OfLoad l) (fail a) xs)"

text \<open>The handlers of a queue called one after the other, first in the queue first.\<close>

definition handlers :: "nat list \<Rightarrow> string \<Rightarrow> addr \<Rightarrow> state \<Rightarrow> state" where
  "handlers q b a s = foldl (\<lambda>t w. fn_subscribe w b a t) s q"

definition queue_of :: "state \<Rightarrow> string \<Rightarrow> nat list" where
  "queue_of s b = (case bundleCallbackQueue s b of None \<Rightarrow> [] | Some q \<Rightarrow> q)"

text \<open>The element \<^verbatim>\<open>loadFile\<close> makes for a path.\<close>

definition new_element :: "nat \<Rightarrow> bool option \<Rightarrow> string \<Rightarrow> element" where
  "new_element l asy p =
     \<lparr>el_isCss = is_css p, el_path = p,
      el_async = (if is_css p then None else Some (case asy of None \<Rightarrow> True | Some a \<Rightarrow> a)),
      el_callbackFn = l\<rparr>"

text \<open>An event of a browser other than IE, not prevented.\<close>

definition plain_event :: "ev_type \<Rightarrow> event" where
  "plain_event t = \<lparr>ev_type = t, defaultPrevented = False, hideFocus = False, cssText = None\<rparr>"

subsection \<open>Reachable states and their invariants\<close>

text \<open>The states the library can be in: it starts at \<open>init\<close>.\<close>

inductive reachable :: "state \<Rightarrow> bool" where
  reachable_init: "reachable init"
| reachable_exec: "reachable s \<Longrightarrow> reachable (exec x s)"

text \<open>
  What holds of \<^verbatim>\<open>subscribe\<close> record \<open>w\<close> between two calls of the interface: its counter
  is the number of its ids less the number of calls of its handler, its
  \<^verbatim>\<open>depsNotFound\<close> lists the ids of the calls with failed paths, and its callback has
  been called once if the handler has been called as often as there are ids (and there
  is at least one), not at all otherwise.
\<close>

definition sub_ok :: "state \<Rightarrow> nat \<Rightarrow> bool" where
  "sub_ok s w =
     (let c = subscriptions s w;
          fs = fn_calls w (calls s);
          n = length (sub_bundleIds c)
      in sub_numWaiting c = int n - int (length fs) \<and>
         sub_depsNotFound c = failed_deps fs \<and>
         callbacks (OfReady w) (calls s) =
           (if n \<noteq> 0 \<and> n \<le> length fs
            then [ready_call w (sub_callbackFn c) (failed_deps (take n fs))] else []))"

text \<open>
  The invariant of the registry: queues and calls name existing records; every record
  satisfies \<open>sub_ok\<close>; every listing of an id by a record is either a past call of its
  handler for that id or an entry in the queue of that id; the queue of an id with a
  result is empty; a handler has been called for ids with a result only.
\<close>

definition subs_ok :: "state \<Rightarrow> bool" where
  "subs_ok s =
     ((\<forall>b. \<forall>w \<in> set (queue_of s b). w < n_subscriptions s) \<and>
      (\<forall>w. n_subscriptions s \<le> w \<longrightarrow>
         fn_calls w (calls s) = [] \<and> callbacks (OfReady w) (calls s) = []) \<and>
      (\<forall>w < n_subscriptions s. sub_ok s w) \<and>
      (\<forall>w < n_subscriptions s. \<forall>b.
         count_list (sub_bundleIds (subscriptions s w)) b =
           count_list (map fst (fn_calls w (calls s))) b + count_list (queue_of s b) w) \<and>
      (\<forall>b. bundleResultCache s b \<noteq> None \<longrightarrow> queue_of s b = []) \<and>
      (\<forall>w b xs. (b, xs) \<in> set (fn_calls w (calls s)) \<longrightarrow> bundleResultCache s b \<noteq> None))"

text \<open>One round of the loop of \<^verbatim>\<open>subscribe\<close>, for the id at the current index.\<close>

definition subscribe_step :: "nat \<Rightarrow> string \<Rightarrow> state \<Rightarrow> state" where
  "subscribe_step w b s =
     (case bundleResultCache s b of
        Some r \<Rightarrow> fn_subscribe w b r s
      | None \<Rightarrow> s\<lparr>bundleCallbackQueue := (bundleCallbackQueue s)(b \<mapsto> queue_of s b @ [w])\<rparr>)"

text \<open>The resolutions up to and including the \<open>n\<close>-th terminal one.\<close>

fun upto_terminal :: "nat \<Rightarrow> (string \<times> char \<times> bool) list \<Rightarrow> (string \<times> char \<times> bool) list" where
  "upto_terminal 0 rs = []"
| "upto_terminal (Suc n) [] = []"
| "upto_terminal (Suc n) (r # rs) = r # upto_terminal (if terminal r then n else Suc n) rs"

text \<open>The paths of the resolutions that record a failure.\<close>

definition failed_paths :: "(string \<times> char \<times> bool) list \<Rightarrow> string list" where
  "failed_paths rs = map fst (filter records_failure rs)"

text \<open>
  What holds of \<^verbatim>\<open>loadFiles\<close> record \<open>l\<close> between two calls of the interface: its counter
  is the number of its paths less the number of terminal calls of its handler, its
  array \<^verbatim>\<open>pathsNotFound\<close> holds the paths of the calls that record a failure, and its
  callback has been called once, with the failed paths of that moment, if there have
  been as many terminal calls as paths (and there is at least one path), not at all
  otherwise.
\<close>

definition batch_ok :: "state \<Rightarrow> nat \<Rightarrow> bool" where
  "batch_ok s l =
     (let c = batches s l;
          rs = resolutions l (calls s);
          n = length (lf_paths c)
      in lf_numWaiting c = int n - int (length (filter terminal rs)) \<and>
         arrays s (lf_pathsNotFound c) = failed_paths rs \<and>
         callbacks (OfLoad l) (calls s) =
           (if n \<noteq> 0 \<and> n \<le> length (filter terminal rs)
            then [load_call l (lf_args c) (failed_paths (upto_terminal n rs))] else []))"

text \<open>
  The invariant of the coordinator: elements and calls name existing records; every
  record satisfies \<open>batch_ok\<close>; the arrays of the records and of the results exist,
  no two records share an array, and a result that is the array of a record is the
  result of the bundle id of that record; the bundle id of a record is marked as used.
\<close>

definition loads_ok :: "state \<Rightarrow> bool" where
  "loads_ok s =
     ((\<forall>e \<in> set (head s). el_callbackFn e < n_batches s) \<and>
      (\<forall>l. n_batches s \<le> l \<longrightarrow>
         callbacks (OfLoad l) (calls s) = [] \<and> resolutions l (calls s) = []) \<and>
      (\<forall>l < n_batches s. batch_ok s l) \<and>
      (\<forall>l < n_batches s. lf_pathsNotFound (batches s l) < n_arrays s) \<and>
      (\<forall>l < n_batches s. \<forall>l' < n_batches s.
         lf_pathsNotFound (batches s l) = lf_pathsNotFound (batches s l') \<longrightarrow> l = l') \<and>
      (\<forall>b a. bundleResultCache s b = Some a \<longrightarrow> a < n_arrays s) \<and>
      (\<forall>b. \<forall>l < n_batches s.
         bundleResultCache s b = Some (lf_pathsNotFound (batches s l)) \<longrightarrow>
         lf_bundleId (batches s l) = Some b) \<and>
      (\<forall>l < n_batches s. \<forall>b. lf_bundleId (batches s l) = Some b \<longrightarrow> bundleIdCache s b \<noteq> None))"

text \<open>
  The state in which the handler of \<^verbatim>\<open>loadFiles\<close> record \<open>l\<close> leaves things before its
  callback publishes: the call is noted, a failure recorded, the counter lowered and,
  when it reaches zero, \<^verbatim>\<open>success\<close> or \<^verbatim>\<open>fail\<close> called.
\<close>

definition before_publish :: "nat \<Rightarrow> string \<Rightarrow> char \<Rightarrow> bool \<Rightarrow> state \<Rightarrow> state" where
  "before_publish l p r d s =
     (let c = batches s l;
          a = lf_pathsNotFound c;
          xs = arrays s a @ (if records_failure (p, r, d) then [p] else [])
      in s\<lparr>arrays := (arrays s)(a := xs),
           batches := (batches s)
             (l := c\<lparr>lf_numWaiting := lf_numWaiting c - (if terminal (p, r, d) then 1 else 0)\<rparr>),
           calls := calls s @ Fn_loadFiles l p r d #
             (if terminal (p, r, d) \<and> lf_numWaiting c = 1 then [load_call l (lf_args c) xs]
              else [])\<rparr>)"


text \<open>The result recorded for a bundle id: the contents of the array in
  \<^verbatim>\<open>bundleResultCache\<close>.\<close>

definition result_of :: "state \<Rightarrow> string \<Rightarrow> string list option" where
  "result_of s b = map_option (arrays s) (bundleResultCache s b)"

section \<open>Basic facts\<close>

declare publish_loop.simps [simp del]

lemmas cb_defs = callbackFn_ready_def call_fail_def call_success_def

lemma fn_calls_simps [simp]:
  "fn_calls w [] = []"
  "fn_calls w (c # cs) = fn_call_of w c @ fn_calls w cs"
  "fn_calls w (xs @ ys) = fn_calls w xs @ fn_calls w ys"
  by (simp_all add: fn_calls_def)

lemma resolutions_simps [simp]:
  "resolutions l [] = []"
  "resolutions l (c # cs) = resolution_of l c @ resolutions l cs"
  "resolutions l (xs @ ys) = resolutions l xs @ resolutions l ys"
  by (simp_all add: resolutions_def)

lemma callbacks_simps [simp]:
  "callbacks who [] = []"
  "callbacks who (c # cs) = (if by_origin who c then c # callbacks who cs else callbacks who cs)"
  "callbacks who (xs @ ys) = callbacks who xs @ callbacks who ys"
  by (simp_all add: callbacks_def)

lemma ready_call_origin [simp]:
  "by_origin who (ready_call w a deps) = (who = OfReady w)"
  "is_Fn_subscribe (ready_call w a deps) = False"
  "fn_call_of w' (ready_call w a deps) = []"
  "resolution_of l (ready_call w a deps) = []"
  by (auto simp: ready_call_def)

lemma load_call_origin [simp]:
  "by_origin who (load_call l a xs) = (who = OfLoad l)"
  "is_Fn_subscribe (load_call l a xs) = False"
  "fn_call_of w' (load_call l a xs) = []"
  "resolution_of l' (load_call l a xs) = []"
  by (auto simp: load_call_def)

text \<open>fn of subscribe as one update\<close>

lemma fn_subscribe_eq:
  "fn_subscribe w b a s =
     s\<lparr>subscriptions := (subscriptions s)
          (w := (subscriptions s w)
             \<lparr>sub_depsNotFound := sub_depsNotFound (subscriptions s w) @ (if arrays s a = [] then [] else [b]),
              sub_numWaiting := sub_numWaiting (subscriptions s w) - 1\<rparr>),
       calls := calls s @ Fn_subscribe w b (arrays s a) #
          (if sub_numWaiting (subscriptions s w) = 1
           then [ready_call w (sub_callbackFn (subscriptions s w))
                  (sub_depsNotFound (subscriptions s w) @ (if arrays s a = [] then [] else [b]))]
           else [])\<rparr>"
  by (simp add: fn_subscribe_def Let_def cb_defs ready_call_def)

lemma fn_subscribe_frame [simp]:
  "bundleIdCache (fn_subscribe w b a s) = bundleIdCache s"
  "bundleResultCache (fn_subscribe w b a s) = bundleResultCache s"
  "bundleCallbackQueue (fn_subscribe w b a s) = bundleCallbackQueue s"
  "arrays (fn_subscribe w b a s) = arrays s"
  "n_arrays (fn_subscribe w b a s) = n_arrays s"
  "n_subscriptions (fn_subscribe w b a s) = n_subscriptions s"
  "batches (fn_subscribe w b a s) = batches s"
  "n_batches (fn_subscribe w b a s) = n_batches s"
  "head (fn_subscribe w b a s) = head s"
  by (simp_all add: fn_subscribe_eq)

lemma fn_subscribe_other [simp]:
  "w' \<noteq> w \<Longrightarrow> subscriptions (fn_subscribe w b a s) w' = subscriptions s w'"
  by (simp add: fn_subscribe_eq)

lemma fn_subscribe_queue_upd:
  "fn_subscribe w b a (s\<lparr>bundleCallbackQueue := Q\<rparr>) = (fn_subscribe w b a s)\<lparr>bundleCallbackQueue := Q\<rparr>"
  by (simp add: fn_subscribe_eq)


lemma handlers_Nil [simp]: "handlers [] b a s = s"
  by (simp add: handlers_def)

lemma handlers_Cons [simp]: "handlers (w # q) b a s = handlers q b a (fn_subscribe w b a s)"
  by (simp add: handlers_def)

lemma handlers_append: "handlers (q @ q') b a s = handlers q' b a (handlers q b a s)"
  by (simp add: handlers_def)

lemma handlers_queue_upd:
  "handlers q b a (s\<lparr>bundleCallbackQueue := Q\<rparr>) = (handlers q b a s)\<lparr>bundleCallbackQueue := Q\<rparr>"
  by (induction q arbitrary: s) (simp_all add: fn_subscribe_queue_upd)

lemma handlers_frame [simp]:
  "bundleIdCache (handlers q b a s) = bundleIdCache s"
  "bundleResultCache (handlers q b a s) = bundleResultCache s"
  "bundleCallbackQueue (handlers q b a s) = bundleCallbackQueue s"
  "arrays (handlers q b a s) = arrays s"
  "n_arrays (handlers q b a s) = n_arrays s"
  "n_subscriptions (handlers q b a s) = n_subscriptions s"
  "batches (handlers q b a s) = batches s"
  "n_batches (handlers q b a s) = n_batches s"
  "head (handlers q b a s) = head s"
  by (induction q arbitrary: s) simp_all


lemma publish_loop_eq:
  "bundleCallbackQueue s b = Some q \<Longrightarrow>
   publish_loop b a s = (handlers q b a s)\<lparr>bundleCallbackQueue := (bundleCallbackQueue s)(b \<mapsto> [])\<rparr>"
proof (induction q arbitrary: s)
  case Nil
  then show ?case by (subst publish_loop.simps) (simp add: map_upd_triv)
next
  case (Cons w q)
  let ?u = "fn_subscribe w b a s"
  let ?t = "splice_first b ?u"
  have t: "?t = ?u\<lparr>bundleCallbackQueue := (bundleCallbackQueue s)(b \<mapsto> q)\<rparr>"
    using Cons.prems by (simp add: splice_first_def)
  have q: "bundleCallbackQueue ?t b = Some q"
    by (simp add: t)
  have "publish_loop b a s = publish_loop b a ?t"
    using Cons.prems by (subst publish_loop.simps) simp
  also have "\<dots> = (handlers q b a ?t)\<lparr>bundleCallbackQueue := (bundleCallbackQueue ?t)(b \<mapsto> [])\<rparr>"
    by (rule Cons.IH [OF q])
  also have "\<dots> = (handlers q b a ?u)\<lparr>bundleCallbackQueue := (bundleCallbackQueue s)(b \<mapsto> [])\<rparr>"
    by (simp add: t handlers_queue_upd)
  finally show ?case by (simp only: handlers_Cons)
qed

text \<open>publish as one equation\<close>

lemma publish_eq:
  "publish bundleId a s =
     (case bundleId of
        None \<Rightarrow> s
      | Some b \<Rightarrow>
          if b = [] then s
          else (case bundleCallbackQueue s b of
                  None \<Rightarrow> s\<lparr>bundleResultCache := (bundleResultCache s)(b \<mapsto> a)\<rparr>
                | Some q \<Rightarrow> (handlers q b a (s\<lparr>bundleResultCache := (bundleResultCache s)(b \<mapsto> a)\<rparr>))
                     \<lparr>bundleCallbackQueue := (bundleCallbackQueue s)(b \<mapsto> [])\<rparr>))"
  by (simp add: publish_def Let_def publish_loop_eq split: option.splits)

text \<open>The equations that evaluate a run on a concrete input.\<close>

lemmas eval_defs = ready_def subscribe_def Let_def init_def queue_of_def publish_eq fn_subscribe_eq
  done_bundle_def new_array_def loadjs_def loadjs_bundleId_def loadjs_args_def loadFiles_def loadFile_def
  onevent_def event_result_def is_css_def empty_args_def ready_call_def load_call_def

lemma fn_subscribe_calls_other [simp]:
  "callbacks (OfLoad l) (calls (fn_subscribe w b a s)) = callbacks (OfLoad l) (calls s)"
  "resolutions l (calls (fn_subscribe w b a s)) = resolutions l (calls s)"
  by (simp_all add: fn_subscribe_eq)

lemma handlers_calls_other [simp]:
  "callbacks (OfLoad l) (calls (handlers q b a s)) = callbacks (OfLoad l) (calls s)"
  "resolutions l (calls (handlers q b a s)) = resolutions l (calls s)"
  by (induction q arbitrary: s) simp_all

lemma publish_frame [simp]:
  "bundleIdCache (publish bid a s) = bundleIdCache s"
  "arrays (publish bid a s) = arrays s"
  "n_arrays (publish bid a s) = n_arrays s"
  "n_subscriptions (publish bid a s) = n_subscriptions s"
  "batches (publish bid a s) = batches s"
  "n_batches (publish bid a s) = n_batches s"
  "head (publish bid a s) = head s"
  "callbacks (OfLoad l) (calls (publish bid a s)) = callbacks (OfLoad l) (calls s)"
  "resolutions l (calls (publish bid a s)) = resolutions l (calls s)"
  by (simp_all add: publish_eq split: option.splits)

text \<open>fn of loadFiles as one equation\<close>

lemma fn_loadFiles_eq:
  "fn_loadFiles l p r d s =
     (let c = batches s l;
          a = lf_pathsNotFound c;
          xs = arrays s a @ (if records_failure (p, r, d) then [p] else []);
          t = s\<lparr>calls := calls s @ [Fn_loadFiles l p r d]\<rparr>
      in if \<not> terminal (p, r, d) then t
         else
           let u = t\<lparr>arrays := (arrays s)(a := xs),
                     batches := (batches s)(l := c\<lparr>lf_numWaiting := lf_numWaiting c - 1\<rparr>)\<rparr>
           in if lf_numWaiting c = 1
              then publish (lf_bundleId c) a (u\<lparr>calls := calls u @ [load_call l (lf_args c) xs]\<rparr>)
              else u)"
  by (auto simp: fn_loadFiles_def Let_def terminal_def records_failure_def push_def
      callbackFn_loadjs_def call_fail_def call_success_def load_call_def fun_upd_idem)

lemma fn_loadFiles_frame [simp]:
  "bundleIdCache (fn_loadFiles l p r d s) = bundleIdCache s"
  "n_arrays (fn_loadFiles l p r d s) = n_arrays s"
  "n_subscriptions (fn_loadFiles l p r d s) = n_subscriptions s"
  "n_batches (fn_loadFiles l p r d s) = n_batches s"
  "head (fn_loadFiles l p r d s) = head s"
  by (simp_all add: fn_loadFiles_eq Let_def)

lemma fn_loadFiles_batches:
  "batches (fn_loadFiles l p r d s) =
     (if terminal (p, r, d)
      then (batches s)(l := (batches s l)\<lparr>lf_numWaiting := lf_numWaiting (batches s l) - 1\<rparr>)
      else batches s)"
  by (simp add: fn_loadFiles_eq Let_def)

lemma fn_loadFiles_arrays:
  "arrays (fn_loadFiles l p r d s) =
     (if records_failure (p, r, d)
      then (arrays s)(lf_pathsNotFound (batches s l) := arrays s (lf_pathsNotFound (batches s l)) @ [p])
      else arrays s)"
  by (auto simp: fn_loadFiles_eq Let_def fun_upd_idem terminal_def records_failure_def)

lemma fn_loadFiles_callbacks:
  "callbacks (OfLoad l') (calls (fn_loadFiles l p r d s)) =
     callbacks (OfLoad l') (calls s) @
       (if l' = l \<and> terminal (p, r, d) \<and> lf_numWaiting (batches s l) = 1
        then [load_call l (lf_args (batches s l))
                (arrays s (lf_pathsNotFound (batches s l)) @ (if records_failure (p, r, d) then [p] else []))]
        else [])"
  by (simp add: fn_loadFiles_eq Let_def)

lemma fn_loadFiles_resolutions:
  "resolutions l' (calls (fn_loadFiles l p r d s)) =
     resolutions l' (calls s) @ (if l' = l then [(p, r, d)] else [])"
  by (simp add: fn_loadFiles_eq Let_def)

lemma loadFile_frame [simp]:
  "bundleIdCache (loadFile p l asy s) = bundleIdCache s"
  "bundleResultCache (loadFile p l asy s) = bundleResultCache s"
  "bundleCallbackQueue (loadFile p l asy s) = bundleCallbackQueue s"
  "arrays (loadFile p l asy s) = arrays s"
  "n_arrays (loadFile p l asy s) = n_arrays s"
  "subscriptions (loadFile p l asy s) = subscriptions s"
  "n_subscriptions (loadFile p l asy s) = n_subscriptions s"
  "batches (loadFile p l asy s) = batches s"
  "n_batches (loadFile p l asy s) = n_batches s"
  "calls (loadFile p l asy s) = calls s"
  by (simp_all add: loadFile_def Let_def)

lemma loadFiles_loop_frame [simp]:
  "bundleIdCache (loadFiles_loop l asy ps s) = bundleIdCache s"
  "bundleResultCache (loadFiles_loop l asy ps s) = bundleResultCache s"
  "bundleCallbackQueue (loadFiles_loop l asy ps s) = bundleCallbackQueue s"
  "arrays (loadFiles_loop l asy ps s) = arrays s"
  "n_arrays (loadFiles_loop l asy ps s) = n_arrays s"
  "subscriptions (loadFiles_loop l asy ps s) = subscriptions s"
  "n_subscriptions (loadFiles_loop l asy ps s) = n_subscriptions s"
  "batches (loadFiles_loop l asy ps s) = batches s"
  "n_batches (loadFiles_loop l asy ps s) = n_batches s"
  "calls (loadFiles_loop l asy ps s) = calls s"
  by (induction ps arbitrary: s) simp_all

lemma loadFiles_loop_head:
  "head (loadFiles_loop l asy ps s) = head s @ map (new_element l asy) ps"
  by (induction ps arbitrary: s) (simp_all add: loadFile_def new_element_def)

lemma loadFiles_frame [simp]:
  "bundleIdCache (loadFiles paths bid a asy s) = bundleIdCache s"
  "bundleResultCache (loadFiles paths bid a asy s) = bundleResultCache s"
  "bundleCallbackQueue (loadFiles paths bid a asy s) = bundleCallbackQueue s"
  "subscriptions (loadFiles paths bid a asy s) = subscriptions s"
  "n_subscriptions (loadFiles paths bid a asy s) = n_subscriptions s"
  "calls (loadFiles paths bid a asy s) = calls s"
  "n_arrays (loadFiles paths bid a asy s) = Suc (n_arrays s)"
  "n_batches (loadFiles paths bid a asy s) = Suc (n_batches s)"
  "arrays (loadFiles paths bid a asy s) = (arrays s)(n_arrays s := [])"
  "batches (loadFiles paths bid a asy s) = (batches s)(n_batches s :=
      \<lparr>lf_paths = listify paths, lf_numWaiting = int (length (listify paths)),
       lf_pathsNotFound = n_arrays s, lf_bundleId = bid, lf_args = a\<rparr>)"
  "head (loadFiles paths bid a asy s) = head s @ map (new_element (n_batches s) asy) (listify paths)"
  by (simp_all add: loadFiles_def Let_def new_array_def loadFiles_loop_head)

lemma failed_deps_simps [simp]:
  "failed_deps [] = []"
  "failed_deps (xs @ ys) = failed_deps xs @ failed_deps ys"
  "failed_deps [(b, zs)] = (if zs = [] then [] else [b])"
  by (simp_all add: failed_deps_def)

lemma fn_subscribe_subscription:
  "subscriptions (fn_subscribe w b a s) w' =
     (if w' = w
      then (subscriptions s w)
             \<lparr>sub_depsNotFound := sub_depsNotFound (subscriptions s w) @ failed_deps [(b, arrays s a)],
              sub_numWaiting := sub_numWaiting (subscriptions s w) - 1\<rparr>
      else subscriptions s w')"
  by (simp add: fn_subscribe_eq)

lemma fn_subscribe_fn_calls:
  "fn_calls w' (calls (fn_subscribe w b a s)) =
     fn_calls w' (calls s) @ (if w' = w then [(b, arrays s a)] else [])"
  by (simp add: fn_subscribe_eq)

lemma fn_subscribe_callbacks:
  "callbacks (OfReady w') (calls (fn_subscribe w b a s)) =
     callbacks (OfReady w') (calls s) @
       (if w' = w \<and> sub_numWaiting (subscriptions s w) = 1
        then [ready_call w (sub_callbackFn (subscriptions s w))
                (sub_depsNotFound (subscriptions s w) @ failed_deps [(b, arrays s a)])]
        else [])"
  by (simp add: fn_subscribe_eq)

lemma sub_ok_fn_subscribe:
  assumes "sub_ok s w'"
  shows "sub_ok (fn_subscribe w b a s) w'"
proof (cases "w' = w")
  case False
  with assms show ?thesis
    by (simp add: sub_ok_def fn_subscribe_subscription fn_subscribe_fn_calls fn_subscribe_callbacks)
next
  case True
  let ?c = "subscriptions s w"
  let ?fs = "fn_calls w (calls s)"
  let ?n = "length (sub_bundleIds ?c)"
  from assms True have
    1: "sub_numWaiting ?c = int ?n - int (length ?fs)" and
    2: "sub_depsNotFound ?c = failed_deps ?fs" and
    3: "callbacks (OfReady w) (calls s) =
          (if ?n \<noteq> 0 \<and> ?n \<le> length ?fs
           then [ready_call w (sub_callbackFn ?c) (failed_deps (take ?n ?fs))] else [])"
    by (simp_all add: sub_ok_def Let_def)
  have one: "sub_numWaiting ?c = 1 \<longleftrightarrow> ?n = Suc (length ?fs)"
    using 1 by auto
  show ?thesis
    unfolding True sub_ok_def Let_def
    by (simp add: fn_subscribe_subscription fn_subscribe_fn_calls fn_subscribe_callbacks 1 2 3 one)
qed

lemma sub_ok_handlers: "sub_ok s w \<Longrightarrow> sub_ok (handlers q b a s) w"
  by (induction q arbitrary: s) (simp_all add: sub_ok_fn_subscribe)

lemma sub_ok_cong:
  "subscriptions s' w = subscriptions s w \<Longrightarrow> fn_calls w (calls s') = fn_calls w (calls s) \<Longrightarrow>
   callbacks (OfReady w) (calls s') = callbacks (OfReady w) (calls s) \<Longrightarrow>
   sub_ok s' w = sub_ok s w"
  by (simp add: sub_ok_def)

lemma handlers_fn_calls:
  "fn_calls w (calls (handlers q b a s)) =
     fn_calls w (calls s) @ replicate (count_list q w) (b, arrays s a)"
  by (induction q arbitrary: s) (simp_all add: fn_subscribe_fn_calls replicate_app_Cons_same)

lemma handlers_callbacks_notin:
  "w \<notin> set q \<Longrightarrow> callbacks (OfReady w) (calls (handlers q b a s)) = callbacks (OfReady w) (calls s)"
  by (induction q arbitrary: s) (simp_all add: fn_subscribe_callbacks)

lemma handlers_subscriptions_notin:
  "w \<notin> set q \<Longrightarrow> subscriptions (handlers q b a s) w = subscriptions s w"
  by (induction q arbitrary: s) (simp_all add: fn_subscribe_subscription)

lemma queue_of_simps [simp]:
  "queue_of (s\<lparr>bundleResultCache := R\<rparr>) = queue_of s"
  "queue_of (s\<lparr>calls := C\<rparr>) = queue_of s"
  "queue_of (s\<lparr>arrays := A\<rparr>) = queue_of s"
  "queue_of (s\<lparr>n_arrays := N\<rparr>) = queue_of s"
  "queue_of (s\<lparr>batches := B\<rparr>) = queue_of s"
  "queue_of (s\<lparr>n_batches := N\<rparr>) = queue_of s"
  "queue_of (s\<lparr>head := H\<rparr>) = queue_of s"
  "queue_of (s\<lparr>bundleIdCache := I\<rparr>) = queue_of s"
  "queue_of (s\<lparr>subscriptions := S\<rparr>) = queue_of s"
  "queue_of (s\<lparr>n_subscriptions := N\<rparr>) = queue_of s"
  "queue_of (s\<lparr>bundleCallbackQueue := (bundleCallbackQueue s)(b \<mapsto> q)\<rparr>) = (queue_of s)(b := q)"
  by (auto simp: queue_of_def fun_eq_iff)

lemma queue_of_handlers [simp]: "queue_of (handlers q b a s) = queue_of s"
  by (simp add: queue_of_def fun_eq_iff)

lemma queue_of_fn_subscribe [simp]: "queue_of (fn_subscribe w b a s) = queue_of s"
  by (simp add: queue_of_def fun_eq_iff)

text \<open>publish in terms of queue_of\<close>

lemma publish_Some_eq:
  "b \<noteq> [] \<Longrightarrow>
   publish (Some b) a s =
     (handlers (queue_of s b) b a (s\<lparr>bundleResultCache := (bundleResultCache s)(b \<mapsto> a)\<rparr>))
       \<lparr>bundleCallbackQueue := (bundleCallbackQueue s)
          (b := map_option (\<lambda>q. []) (bundleCallbackQueue s b))\<rparr>"
  by (cases "bundleCallbackQueue s b") (simp_all add: publish_eq queue_of_def fun_upd_idem)

lemma publish_queue_of:
  "b \<noteq> [] \<Longrightarrow> queue_of (publish (Some b) a s) = (queue_of s)(b := [])"
  by (cases "bundleCallbackQueue s b") (auto simp: publish_eq queue_of_def fun_eq_iff)

lemma publish_cache:
  "b \<noteq> [] \<Longrightarrow> bundleResultCache (publish (Some b) a s) = (bundleResultCache s)(b \<mapsto> a)"
  by (cases "bundleCallbackQueue s b") (simp_all add: publish_eq)

lemma publish_fn_calls:
  "b \<noteq> [] \<Longrightarrow> fn_calls w (calls (publish (Some b) a s)) =
     fn_calls w (calls s) @ replicate (count_list (queue_of s b) w) (b, arrays s a)"
  by (simp add: publish_Some_eq handlers_fn_calls)

lemma publish_callbacks_notin:
  "b \<noteq> [] \<Longrightarrow> w \<notin> set (queue_of s b) \<Longrightarrow>
   callbacks (OfReady w) (calls (publish (Some b) a s)) = callbacks (OfReady w) (calls s)"
  by (simp add: publish_Some_eq handlers_callbacks_notin)

lemma publish_n_subscriptions [simp]:
  "n_subscriptions (publish bid a s) = n_subscriptions s"
  by simp

lemma sub_ok_publish: "sub_ok s w \<Longrightarrow> sub_ok (publish bid a s) w"
proof (cases "\<exists>b. bid = Some b \<and> b \<noteq> []")
  case False
  moreover assume "sub_ok s w"
  ultimately show ?thesis by (cases bid) (auto simp: publish_eq)
next
  case True
  then obtain b where b: "bid = Some b" "b \<noteq> []" by blast
  assume ok: "sub_ok s w"
  have "sub_ok (s\<lparr>bundleResultCache := (bundleResultCache s)(b \<mapsto> a)\<rparr>) w"
    using ok by (simp add: sub_ok_def)
  then have "sub_ok (handlers (queue_of s b) b a (s\<lparr>bundleResultCache := (bundleResultCache s)(b \<mapsto> a)\<rparr>)) w"
    by (rule sub_ok_handlers)
  then show ?thesis
    by (simp add: b publish_Some_eq sub_ok_def)
qed

lemma handlers_sub_bundleIds [simp]:
  "sub_bundleIds (subscriptions (handlers q b a s) w) = sub_bundleIds (subscriptions s w)"
  "sub_callbackFn (subscriptions (handlers q b a s) w) = sub_callbackFn (subscriptions s w)"
  by (induction q arbitrary: s) (simp_all add: fn_subscribe_subscription)

lemma publish_sub_bundleIds [simp]:
  "sub_bundleIds (subscriptions (publish bid a s) w) = sub_bundleIds (subscriptions s w)"
  "sub_callbackFn (subscriptions (publish bid a s) w) = sub_callbackFn (subscriptions s w)"
  by (simp_all add: publish_eq split: option.splits)

lemma fn_loadFiles_sub_bundleIds [simp]:
  "sub_bundleIds (subscriptions (fn_loadFiles l p r d s) w) = sub_bundleIds (subscriptions s w)"
  "sub_callbackFn (subscriptions (fn_loadFiles l p r d s) w) = sub_callbackFn (subscriptions s w)"
  by (simp_all add: fn_loadFiles_eq Let_def)

lemma count_list_replicate [simp]:
  "count_list (replicate n x) y = (if x = y then n else 0)"
  by (induction n) auto

lemma subs_okD:
  assumes "subs_ok s"
  shows "w \<in> set (queue_of s b) \<Longrightarrow> w < n_subscriptions s"
    and "n_subscriptions s \<le> w \<Longrightarrow>
           fn_calls w (calls s) = [] \<and> callbacks (OfReady w) (calls s) = []"
    and "w < n_subscriptions s \<Longrightarrow> sub_ok s w"
    and "w < n_subscriptions s \<Longrightarrow>
           count_list (sub_bundleIds (subscriptions s w)) b =
             count_list (map fst (fn_calls w (calls s))) b + count_list (queue_of s b) w"
    and "bundleResultCache s b \<noteq> None \<Longrightarrow> queue_of s b = []"
    and "(b, xs) \<in> set (fn_calls w (calls s)) \<Longrightarrow> bundleResultCache s b \<noteq> None"
  using assms unfolding subs_ok_def by blast+

lemma subs_ok_publish:
  assumes "subs_ok s"
  shows "subs_ok (publish bid a s)"
proof (cases "\<exists>b. bid = Some b \<and> b \<noteq> []")
  case False
  with assms show ?thesis by (cases bid) (auto simp: publish_eq)
next
  case True
  then obtain b where b: "bid = Some b" "b \<noteq> []" by blast
  let ?t = "publish (Some b) a s"
  note F1 = subs_okD(1) [OF assms] and F2 = subs_okD(2) [OF assms] and P = subs_okD(3) [OF assms]
    and L = subs_okD(4) [OF assms] and M = subs_okD(5) [OF assms] and S = subs_okD(6) [OF assms]
  have notin: "w \<notin> set (queue_of s b)" if "n_subscriptions s \<le> w" for w
    using F1 [of w b] that by auto
  have F1': "\<forall>b'. \<forall>w \<in> set (queue_of ?t b'). w < n_subscriptions ?t"
    using F1 by (auto simp: publish_queue_of b)
  have F2': "\<forall>w. n_subscriptions ?t \<le> w \<longrightarrow>
      fn_calls w (calls ?t) = [] \<and> callbacks (OfReady w) (calls ?t) = []"
    using F2 notin by (simp add: publish_fn_calls publish_callbacks_notin b)
  have P': "\<forall>w < n_subscriptions ?t. sub_ok ?t w"
    using P by (simp add: sub_ok_publish)
  have L': "\<forall>w < n_subscriptions ?t. \<forall>b'.
      count_list (sub_bundleIds (subscriptions ?t w)) b' =
        count_list (map fst (fn_calls w (calls ?t))) b' + count_list (queue_of ?t b') w"
    using L by (auto simp: publish_fn_calls publish_queue_of b)
  have M': "\<forall>b'. bundleResultCache ?t b' \<noteq> None \<longrightarrow> queue_of ?t b' = []"
    using M by (simp add: publish_cache publish_queue_of b)
  have S': "\<forall>w b' xs. (b', xs) \<in> set (fn_calls w (calls ?t)) \<longrightarrow> bundleResultCache ?t b' \<noteq> None"
    using S by (auto simp: publish_cache publish_fn_calls b)
  show ?thesis
    unfolding b subs_ok_def using F1' F2' P' L' M' S' by blast
qed

lemma subscribe_loop_Suc:
  "subscribe_loop w ids (Suc i) s = subscribe_loop w ids i (subscribe_step w (ids ! i) s)"
  by (simp add: subscribe_step_def queue_of_def Let_def cong: option.case_cong)

lemma subscribe_step_frame [simp]:
  "bundleIdCache (subscribe_step w b s) = bundleIdCache s"
  "bundleResultCache (subscribe_step w b s) = bundleResultCache s"
  "arrays (subscribe_step w b s) = arrays s"
  "n_arrays (subscribe_step w b s) = n_arrays s"
  "n_subscriptions (subscribe_step w b s) = n_subscriptions s"
  "batches (subscribe_step w b s) = batches s"
  "n_batches (subscribe_step w b s) = n_batches s"
  "head (subscribe_step w b s) = head s"
  "callbacks (OfLoad l) (calls (subscribe_step w b s)) = callbacks (OfLoad l) (calls s)"
  "resolutions l (calls (subscribe_step w b s)) = resolutions l (calls s)"
  "sub_bundleIds (subscriptions (subscribe_step w b s) w') = sub_bundleIds (subscriptions s w')"
  "sub_callbackFn (subscriptions (subscribe_step w b s) w') = sub_callbackFn (subscriptions s w')"
  by (simp_all add: subscribe_step_def fn_subscribe_subscription split: option.splits)

lemma subscribe_step_other:
  "w' \<noteq> w \<Longrightarrow> subscriptions (subscribe_step w b s) w' = subscriptions s w'"
  "w' \<noteq> w \<Longrightarrow> fn_calls w' (calls (subscribe_step w b s)) = fn_calls w' (calls s)"
  "w' \<noteq> w \<Longrightarrow> callbacks (OfReady w') (calls (subscribe_step w b s)) = callbacks (OfReady w') (calls s)"
  by (simp_all add: subscribe_step_def fn_subscribe_subscription fn_subscribe_fn_calls
      fn_subscribe_callbacks split: option.splits)

lemma sub_ok_subscribe_step: "sub_ok s w' \<Longrightarrow> sub_ok (subscribe_step w b s) w'"
proof (cases "bundleResultCache s b")
  case None
  moreover assume "sub_ok s w'"
  ultimately show ?thesis by (simp add: subscribe_step_def sub_ok_def)
next
  case (Some r)
  moreover assume "sub_ok s w'"
  ultimately show ?thesis by (simp add: subscribe_step_def sub_ok_fn_subscribe)
qed

lemma subscribe_step_queue_of:
  "queue_of (subscribe_step w b s) b' =
     (if b' = b \<and> bundleResultCache s b = None then queue_of s b @ [w] else queue_of s b')"
  by (simp add: subscribe_step_def split: option.splits)

lemma subscribe_step_fn_calls:
  "fn_calls w (calls (subscribe_step w b s)) =
     fn_calls w (calls s) @
       (case bundleResultCache s b of None \<Rightarrow> [] | Some r \<Rightarrow> [(b, arrays s r)])"
  by (simp add: subscribe_step_def fn_subscribe_fn_calls split: option.splits)

lemma subscribe_loop_frame [simp]:
  "bundleIdCache (subscribe_loop w ids i s) = bundleIdCache s"
  "bundleResultCache (subscribe_loop w ids i s) = bundleResultCache s"
  "arrays (subscribe_loop w ids i s) = arrays s"
  "n_arrays (subscribe_loop w ids i s) = n_arrays s"
  "n_subscriptions (subscribe_loop w ids i s) = n_subscriptions s"
  "batches (subscribe_loop w ids i s) = batches s"
  "n_batches (subscribe_loop w ids i s) = n_batches s"
  "head (subscribe_loop w ids i s) = head s"
  "callbacks (OfLoad l) (calls (subscribe_loop w ids i s)) = callbacks (OfLoad l) (calls s)"
  "resolutions l (calls (subscribe_loop w ids i s)) = resolutions l (calls s)"
  "sub_bundleIds (subscriptions (subscribe_loop w ids i s) w') = sub_bundleIds (subscriptions s w')"
  "sub_callbackFn (subscriptions (subscribe_loop w ids i s) w') = sub_callbackFn (subscriptions s w')"
  by (induction i arbitrary: s) (simp_all add: subscribe_loop_Suc del: subscribe_loop.simps(2))

lemma subscribe_loop_other:
  "w' \<noteq> w \<Longrightarrow> subscriptions (subscribe_loop w ids i s) w' = subscriptions s w'"
  "w' \<noteq> w \<Longrightarrow> fn_calls w' (calls (subscribe_loop w ids i s)) = fn_calls w' (calls s)"
  "w' \<noteq> w \<Longrightarrow> callbacks (OfReady w') (calls (subscribe_loop w ids i s)) = callbacks (OfReady w') (calls s)"
  by (induction i arbitrary: s)
     (simp_all add: subscribe_loop_Suc subscribe_step_other del: subscribe_loop.simps(2))

lemma sub_ok_subscribe_loop: "sub_ok s w' \<Longrightarrow> sub_ok (subscribe_loop w ids i s) w'"
  by (induction i arbitrary: s)
     (simp_all add: subscribe_loop_Suc sub_ok_subscribe_step del: subscribe_loop.simps(2))

lemma subscribe_loop_queue_count:
  "i \<le> length ids \<Longrightarrow>
   count_list (queue_of (subscribe_loop w ids i s) b) w' =
     count_list (queue_of s b) w' +
       (if w' = w \<and> bundleResultCache s b = None then count_list (take i ids) b else 0)"
proof (induction i arbitrary: s)
  case 0
  then show ?case by simp
next
  case (Suc i)
  then have "take (Suc i) ids = take i ids @ [ids ! i]"
    by (simp add: take_Suc_conv_app_nth)
  with Suc show ?case
    by (simp add: subscribe_loop_Suc subscribe_step_queue_of del: subscribe_loop.simps(2))
qed

lemma subscribe_loop_queue_set:
  "set (queue_of (subscribe_loop w ids i s) b) \<subseteq> insert w (set (queue_of s b))"
proof (induction i arbitrary: s)
  case 0
  then show ?case by auto
next
  case (Suc i)
  have "set (queue_of (subscribe_step w (ids ! i) s) b) \<subseteq> insert w (set (queue_of s b))"
    by (auto simp: subscribe_step_queue_of)
  with Suc [of "subscribe_step w (ids ! i) s"] show ?case
    by (auto simp: subscribe_loop_Suc simp del: subscribe_loop.simps(2))
qed

lemma subscribe_loop_queue_cached:
  "bundleResultCache s b \<noteq> None \<Longrightarrow> queue_of (subscribe_loop w ids i s) b = queue_of s b"
  by (induction i arbitrary: s)
     (auto simp: subscribe_loop_Suc subscribe_step_queue_of simp del: subscribe_loop.simps(2))

lemma subscribe_loop_fn_calls_count:
  "i \<le> length ids \<Longrightarrow>
   count_list (map fst (fn_calls w (calls (subscribe_loop w ids i s)))) b =
     count_list (map fst (fn_calls w (calls s))) b +
       (if bundleResultCache s b \<noteq> None then count_list (take i ids) b else 0)"
proof (induction i arbitrary: s)
  case 0
  then show ?case by simp
next
  case (Suc i)
  then have "take (Suc i) ids = take i ids @ [ids ! i]"
    by (simp add: take_Suc_conv_app_nth)
  with Suc show ?case
    by (auto simp: subscribe_loop_Suc subscribe_step_fn_calls simp del: subscribe_loop.simps(2)
        split: option.splits)
qed

lemma subscribe_loop_fn_calls_set:
  "(b, xs) \<in> set (fn_calls w (calls (subscribe_loop w ids i s))) \<Longrightarrow>
   (b, xs) \<in> set (fn_calls w (calls s)) \<or> bundleResultCache s b \<noteq> None"
proof (induction i arbitrary: s)
  case 0
  then show ?case by simp
next
  case (Suc i)
  have "(b, xs) \<in> set (fn_calls w (calls (subscribe_step w (ids ! i) s))) \<or>
     bundleResultCache s b \<noteq> None"
    using Suc.IH [of "subscribe_step w (ids ! i) s"] Suc.prems
    by (simp add: subscribe_loop_Suc del: subscribe_loop.simps(2))
  then show ?case
    by (auto simp: subscribe_step_fn_calls split: option.splits)
qed

lemma subs_ok_subscribe:
  assumes "subs_ok s"
  shows "subs_ok (subscribe deps a s)"
proof -
  note F1 = subs_okD(1) [OF assms] and F2 = subs_okD(2) [OF assms] and P = subs_okD(3) [OF assms]
    and L = subs_okD(4) [OF assms] and M = subs_okD(5) [OF assms] and S = subs_okD(6) [OF assms]
  define ids where "ids = listify deps"
  define w where "w = n_subscriptions s"
  define c0 where "c0 = \<lparr>sub_bundleIds = ids, sub_depsNotFound = [],
    sub_numWaiting = int (length ids), sub_callbackFn = a\<rparr>"
  define s1 where "s1 = s\<lparr>subscriptions := (subscriptions s)(w := c0), n_subscriptions := Suc w\<rparr>"
  define t where "t = subscribe_loop w ids (length ids) s1"
  have t: "subscribe deps a s = t"
    by (simp add: subscribe_def Let_def t_def s1_def c0_def w_def ids_def)
  have s1 [simp]: "queue_of s1 = queue_of s" "bundleResultCache s1 = bundleResultCache s"
    "calls s1 = calls s" "n_subscriptions s1 = Suc w"
    "\<And>w'. subscriptions s1 w' = (if w' = w then c0 else subscriptions s w')"
    by (simp_all add: s1_def)
  have fresh: "fn_calls w (calls s) = []" "callbacks (OfReady w) (calls s) = []"
    using F2 [of w] by (simp_all add: w_def)
  have notin: "w \<notin> set (queue_of s b)" for b
    using F1 [of w b] by (auto simp: w_def)
  have ok1: "sub_ok s1 w'" if "w' < Suc w" for w'
  proof (cases "w' = w")
    case True
    then show ?thesis by (simp add: sub_ok_def fresh c0_def)
  next
    case False
    with that have "w' < n_subscriptions s" by (simp add: w_def)
    then have "sub_ok s w'" by (rule P)
    with False show ?thesis by (simp add: sub_ok_def)
  qed
  have F1': "\<forall>b. \<forall>w' \<in> set (queue_of t b). w' < n_subscriptions t"
  proof (intro allI ballI)
    fix b w' assume "w' \<in> set (queue_of t b)"
    then have "w' \<in> insert w (set (queue_of s b))"
      using subscribe_loop_queue_set [of w ids "length ids" s1 b] by (auto simp: t_def)
    then show "w' < n_subscriptions t"
      using F1 [of w' b] by (auto simp: t_def w_def)
  qed
  have F2': "\<forall>w'. n_subscriptions t \<le> w' \<longrightarrow>
      fn_calls w' (calls t) = [] \<and> callbacks (OfReady w') (calls t) = []"
  proof (intro allI impI)
    fix w' assume "n_subscriptions t \<le> w'"
    then have "w' \<noteq> w" "n_subscriptions s \<le> w'" by (simp_all add: t_def w_def)
    then show "fn_calls w' (calls t) = [] \<and> callbacks (OfReady w') (calls t) = []"
      using F2 [of w'] by (simp add: t_def subscribe_loop_other)
  qed
  have P': "\<forall>w' < n_subscriptions t. sub_ok t w'"
    by (simp add: t_def sub_ok_subscribe_loop ok1)
  have L': "\<forall>w' < n_subscriptions t. \<forall>b.
      count_list (sub_bundleIds (subscriptions t w')) b =
        count_list (map fst (fn_calls w' (calls t))) b + count_list (queue_of t b) w'"
  proof (intro allI impI)
    fix w' b assume "w' < n_subscriptions t"
    then have le: "w' < Suc w" by (simp add: t_def)
    show "count_list (sub_bundleIds (subscriptions t w')) b =
        count_list (map fst (fn_calls w' (calls t))) b + count_list (queue_of t b) w'"
    proof (cases "w' = w")
      case True
      show ?thesis
        unfolding True t_def
        by (simp add: subscribe_loop_queue_count subscribe_loop_fn_calls_count fresh
            count_notin [OF notin] c0_def)
    next
      case False
      with le have "w' < n_subscriptions s" by (simp add: w_def)
      from L [OF this, of b] False show ?thesis
        unfolding t_def
        by (simp add: subscribe_loop_queue_count subscribe_loop_other)
    qed
  qed
  have M': "\<forall>b. bundleResultCache t b \<noteq> None \<longrightarrow> queue_of t b = []"
    using M by (simp add: t_def subscribe_loop_queue_cached)
  have S': "\<forall>w' b xs. (b, xs) \<in> set (fn_calls w' (calls t)) \<longrightarrow> bundleResultCache t b \<noteq> None"
  proof (intro allI impI)
    fix w' b xs assume in_t: "(b, xs) \<in> set (fn_calls w' (calls t))"
    show "bundleResultCache t b \<noteq> None"
    proof (cases "w' = w")
      case True
      with in_t subscribe_loop_fn_calls_set [of b xs w ids "length ids" s1]
      show ?thesis by (simp add: t_def fresh)
    next
      case False
      with in_t have "(b, xs) \<in> set (fn_calls w' (calls s))"
        by (simp add: t_def subscribe_loop_other)
      then show ?thesis using S by (simp add: t_def)
    qed
  qed
  show ?thesis
    unfolding t subs_ok_def using F1' F2' P' L' M' S' by blast
qed

lemma subs_ok_frame:
  assumes "subs_ok s"
    and "bundleCallbackQueue s' = bundleCallbackQueue s" "bundleResultCache s' = bundleResultCache s"
    "subscriptions s' = subscriptions s" "n_subscriptions s' = n_subscriptions s"
    "\<And>w. fn_calls w (calls s') = fn_calls w (calls s)"
    "\<And>w. callbacks (OfReady w) (calls s') = callbacks (OfReady w) (calls s)"
  shows "subs_ok s'"
proof -
  have "queue_of s' = queue_of s"
    by (simp add: queue_of_def fun_eq_iff assms)
  with assms show ?thesis
    by (simp add: subs_ok_def sub_ok_def)
qed

lemma subs_ok_init: "subs_ok init"
  by (simp add: subs_ok_def sub_ok_def init_def queue_of_def)

lemma subs_ok_fn_loadFiles:
  assumes "subs_ok s"
  shows "subs_ok (fn_loadFiles l p r d s)"
proof -
  define c where "c = batches s l"
  define a where "a = lf_pathsNotFound c"
  define xs where "xs = arrays s a @ (if records_failure (p, r, d) then [p] else [])"
  define t where "t = s\<lparr>calls := calls s @ [Fn_loadFiles l p r d]\<rparr>"
  define u where "u = t\<lparr>arrays := (arrays s)(a := xs),
     batches := (batches s)(l := c\<lparr>lf_numWaiting := lf_numWaiting c - 1\<rparr>)\<rparr>"
  define v where "v = u\<lparr>calls := calls u @ [load_call l (lf_args c) xs]\<rparr>"
  have t: "subs_ok t" by (rule subs_ok_frame [OF assms]) (simp_all add: t_def)
  have u: "subs_ok u" by (rule subs_ok_frame [OF assms]) (simp_all add: u_def t_def)
  have v: "subs_ok v" by (rule subs_ok_frame [OF assms]) (simp_all add: v_def u_def t_def)
  have "fn_loadFiles l p r d s =
     (if \<not> terminal (p, r, d) then t
      else if lf_numWaiting c = 1 then publish (lf_bundleId c) a v else u)"
    unfolding fn_loadFiles_eq c_def a_def xs_def t_def u_def v_def Let_def by simp
  with subs_ok_publish [OF v] t u show ?thesis
    by simp
qed

lemma done_bundle_eq:
  "done_bundle b s =
     publish (Some b) (n_arrays s) (s\<lparr>arrays := (arrays s)(n_arrays s := []), n_arrays := Suc (n_arrays s)\<rparr>)"
  by (simp add: done_bundle_def new_array_def)

lemma subs_ok_exec: "subs_ok s \<Longrightarrow> subs_ok (exec x s)"
proof (cases x)
  case (Loadjs paths a1 a2)
  assume ok: "subs_ok s"
  have *: "subs_ok (loadFiles paths bid a asy (s\<lparr>bundleIdCache := I\<rparr>))" for bid a asy I
    by (rule subs_ok_frame [OF ok]) simp_all
  have **: "subs_ok (loadFiles paths bid a asy s)" for bid a asy
    by (rule subs_ok_frame [OF ok]) simp_all
  show ?thesis
    using ok * ** by (simp add: Loadjs loadjs_def Let_def split: option.splits)
next
  case (Ready deps a)
  then show "subs_ok s \<Longrightarrow> ?thesis" by (simp add: ready_def subs_ok_subscribe)
next
  case (Done b)
  assume ok: "subs_ok s"
  have "subs_ok (s\<lparr>arrays := (arrays s)(n_arrays s := []), n_arrays := Suc (n_arrays s)\<rparr>)"
    by (rule subs_ok_frame [OF ok]) simp_all
  then show ?thesis
    by (simp add: Done done_bundle_eq subs_ok_publish)
next
  case (Fire k ev)
  then show "subs_ok s \<Longrightarrow> ?thesis" by (simp add: onevent_def Let_def subs_ok_fn_loadFiles)
qed

lemma reachable_run: "reachable s \<Longrightarrow> reachable (run ops s)"
  by (induction ops arbitrary: s) (simp_all add: reachable_exec)

lemma reachable_subs_ok: "reachable s \<Longrightarrow> subs_ok s"
  by (induction rule: reachable.induct) (simp_all add: subs_ok_init subs_ok_exec)

text \<open>What a subscription was made with stays.\<close>

lemma exec_subscription_static:
  assumes "w < n_subscriptions s"
  shows "w < n_subscriptions (exec x s) \<and>
    sub_bundleIds (subscriptions (exec x s) w) = sub_bundleIds (subscriptions s w) \<and>
    sub_callbackFn (subscriptions (exec x s) w) = sub_callbackFn (subscriptions s w)"
proof (cases x)
  case (Loadjs paths a1 a2)
  with assms show ?thesis by (simp add: loadjs_def Let_def split: option.splits)
next
  case (Ready deps a)
  with assms show ?thesis by (simp add: ready_def subscribe_def Let_def)
next
  case (Done b)
  with assms show ?thesis by (simp add: done_bundle_eq)
next
  case (Fire k ev)
  with assms show ?thesis by (simp add: onevent_def Let_def)
qed

lemma run_subscription_static:
  "w < n_subscriptions s \<Longrightarrow>
   w < n_subscriptions (run ops s) \<and>
   sub_bundleIds (subscriptions (run ops s) w) = sub_bundleIds (subscriptions s w) \<and>
   sub_callbackFn (subscriptions (run ops s) w) = sub_callbackFn (subscriptions s w)"
proof (induction ops arbitrary: s)
  case Nil
  then show ?case by simp
next
  case (Cons x ops)
  from exec_subscription_static [OF Cons.prems, of x] Cons.IH [of "exec x s"]
  show ?case by simp
qed







lemma ready_new_subscription:
  "n_subscriptions (ready deps a s) = Suc (n_subscriptions s)"
  "sub_bundleIds (subscriptions (ready deps a s) (n_subscriptions s)) = listify deps"
  "sub_callbackFn (subscriptions (ready deps a s) (n_subscriptions s)) = a"
  by (simp_all add: ready_def subscribe_def Let_def)

lemma subscribe_frame [simp]:
  "bundleIdCache (subscribe deps a s) = bundleIdCache s"
  "bundleResultCache (subscribe deps a s) = bundleResultCache s"
  "arrays (subscribe deps a s) = arrays s"
  "n_arrays (subscribe deps a s) = n_arrays s"
  "n_subscriptions (subscribe deps a s) = Suc (n_subscriptions s)"
  "batches (subscribe deps a s) = batches s"
  "n_batches (subscribe deps a s) = n_batches s"
  "head (subscribe deps a s) = head s"
  "callbacks (OfLoad l) (calls (subscribe deps a s)) = callbacks (OfLoad l) (calls s)"
  "resolutions l (calls (subscribe deps a s)) = resolutions l (calls s)"
  by (simp_all add: subscribe_def Let_def)

lemma done_bundle_frame [simp]:
  "bundleIdCache (done_bundle b s) = bundleIdCache s"
  "n_arrays (done_bundle b s) = Suc (n_arrays s)"
  "arrays (done_bundle b s) = (arrays s)(n_arrays s := [])"
  "n_subscriptions (done_bundle b s) = n_subscriptions s"
  "batches (done_bundle b s) = batches s"
  "n_batches (done_bundle b s) = n_batches s"
  "head (done_bundle b s) = head s"
  "callbacks (OfLoad l) (calls (done_bundle b s)) = callbacks (OfLoad l) (calls s)"
  "resolutions l (calls (done_bundle b s)) = resolutions l (calls s)"
  by (simp_all add: done_bundle_eq)

lemma onevent_frame [simp]:
  "bundleIdCache (onevent k ev s) = bundleIdCache s"
  "n_arrays (onevent k ev s) = n_arrays s"
  "n_subscriptions (onevent k ev s) = n_subscriptions s"
  "n_batches (onevent k ev s) = n_batches s"
  "head (onevent k ev s) = head s"
  by (simp_all add: onevent_def Let_def)





lemma records_failure_terminal: "records_failure x \<Longrightarrow> terminal x"
  by (auto simp: records_failure_def terminal_def)

lemma upto_terminal_Nil [simp]: "upto_terminal n [] = []"
  by (cases n) simp_all

lemma upto_terminal_snoc:
  "length (filter terminal rs) < n \<Longrightarrow> upto_terminal n (rs @ [x]) = rs @ [x]"
proof (induction rs arbitrary: n)
  case Nil
  then show ?case by (cases n) simp_all
next
  case (Cons r rs)
  then obtain m where n: "n = Suc m" by (cases n) auto
  with Cons show ?case by (auto split: if_splits)
qed

lemma upto_terminal_append:
  "n \<le> length (filter terminal rs) \<Longrightarrow> upto_terminal n (rs @ ys) = upto_terminal n rs"
proof (induction rs arbitrary: n)
  case Nil
  then show ?case by simp
next
  case (Cons r rs)
  show ?case
  proof (cases n)
    case 0
    then show ?thesis by simp
  next
    case (Suc m)
    with Cons show ?thesis by (auto split: if_splits)
  qed
qed

lemma failed_paths_simps [simp]:
  "failed_paths [] = []"
  "failed_paths (xs @ ys) = failed_paths xs @ failed_paths ys"
  "failed_paths [x] = (if records_failure x then [fst x] else [])"
  by (simp_all add: failed_paths_def)

lemma loads_okD:
  assumes "loads_ok s"
  shows "e \<in> set (head s) \<Longrightarrow> el_callbackFn e < n_batches s"
    and "n_batches s \<le> l \<Longrightarrow> callbacks (OfLoad l) (calls s) = [] \<and> resolutions l (calls s) = []"
    and "l < n_batches s \<Longrightarrow> batch_ok s l"
    and "l < n_batches s \<Longrightarrow> lf_pathsNotFound (batches s l) < n_arrays s"
    and "l < n_batches s \<Longrightarrow> l' < n_batches s \<Longrightarrow>
           lf_pathsNotFound (batches s l) = lf_pathsNotFound (batches s l') \<Longrightarrow> l = l'"
    and "bundleResultCache s b = Some a \<Longrightarrow> a < n_arrays s"
    and "l < n_batches s \<Longrightarrow> bundleResultCache s b = Some (lf_pathsNotFound (batches s l)) \<Longrightarrow>
           lf_bundleId (batches s l) = Some b"
    and "l < n_batches s \<Longrightarrow> lf_bundleId (batches s l) = Some b \<Longrightarrow> bundleIdCache s b \<noteq> None"
  using assms unfolding loads_ok_def by blast+

lemma loads_okI:
  assumes "\<And>e. e \<in> set (head s) \<Longrightarrow> el_callbackFn e < n_batches s"
    and "\<And>l. n_batches s \<le> l \<Longrightarrow> callbacks (OfLoad l) (calls s) = [] \<and> resolutions l (calls s) = []"
    and "\<And>l. l < n_batches s \<Longrightarrow> batch_ok s l"
    and "\<And>l. l < n_batches s \<Longrightarrow> lf_pathsNotFound (batches s l) < n_arrays s"
    and "\<And>l l'. l < n_batches s \<Longrightarrow> l' < n_batches s \<Longrightarrow>
           lf_pathsNotFound (batches s l) = lf_pathsNotFound (batches s l') \<Longrightarrow> l = l'"
    and "\<And>b a. bundleResultCache s b = Some a \<Longrightarrow> a < n_arrays s"
    and "\<And>b l. l < n_batches s \<Longrightarrow> bundleResultCache s b = Some (lf_pathsNotFound (batches s l)) \<Longrightarrow>
           lf_bundleId (batches s l) = Some b"
    and "\<And>l b. l < n_batches s \<Longrightarrow> lf_bundleId (batches s l) = Some b \<Longrightarrow> bundleIdCache s b \<noteq> None"
  shows "loads_ok s"
  unfolding loads_ok_def using assms by blast

lemma loads_ok_init: "loads_ok init"
  by (simp add: loads_ok_def init_def)

text \<open>What the invariant reads.\<close>

lemma loads_ok_frame:
  assumes "loads_ok s"
    and "head s' = head s" "n_batches s' = n_batches s" "batches s' = batches s"
    "arrays s' = arrays s" "n_arrays s' = n_arrays s"
    "bundleResultCache s' = bundleResultCache s" "bundleIdCache s' = bundleIdCache s"
    "\<And>l. callbacks (OfLoad l) (calls s') = callbacks (OfLoad l) (calls s)"
    "\<And>l. resolutions l (calls s') = resolutions l (calls s)"
  shows "loads_ok s'"
  using assms(1) by (simp add: loads_ok_def batch_ok_def assms(2-))

lemma batch_ok_cong:
  "batches s' l = batches s l \<Longrightarrow>
   arrays s' (lf_pathsNotFound (batches s l)) = arrays s (lf_pathsNotFound (batches s l)) \<Longrightarrow>
   resolutions l (calls s') = resolutions l (calls s) \<Longrightarrow>
   callbacks (OfLoad l) (calls s') = callbacks (OfLoad l) (calls s) \<Longrightarrow>
   batch_ok s' l = batch_ok s l"
  by (simp add: batch_ok_def)

lemma fn_loadFiles_before_publish:
  "fn_loadFiles l p r d s =
     (if terminal (p, r, d) \<and> lf_numWaiting (batches s l) = 1
      then publish (lf_bundleId (batches s l)) (lf_pathsNotFound (batches s l))
             (before_publish l p r d s)
      else before_publish l p r d s)"
  by (auto simp: fn_loadFiles_eq before_publish_def Let_def fun_upd_idem
      dest: records_failure_terminal)

lemma before_publish_frame [simp]:
  "bundleIdCache (before_publish l p r d s) = bundleIdCache s"
  "bundleResultCache (before_publish l p r d s) = bundleResultCache s"
  "bundleCallbackQueue (before_publish l p r d s) = bundleCallbackQueue s"
  "n_arrays (before_publish l p r d s) = n_arrays s"
  "subscriptions (before_publish l p r d s) = subscriptions s"
  "n_subscriptions (before_publish l p r d s) = n_subscriptions s"
  "n_batches (before_publish l p r d s) = n_batches s"
  "head (before_publish l p r d s) = head s"
  "fn_calls w (calls (before_publish l p r d s)) = fn_calls w (calls s)"
  "callbacks (OfReady w) (calls (before_publish l p r d s)) = callbacks (OfReady w) (calls s)"
  "lf_pathsNotFound (batches (before_publish l p r d s) l') = lf_pathsNotFound (batches s l')"
  "lf_bundleId (batches (before_publish l p r d s) l') = lf_bundleId (batches s l')"
  "lf_paths (batches (before_publish l p r d s) l') = lf_paths (batches s l')"
  "lf_args (batches (before_publish l p r d s) l') = lf_args (batches s l')"
  by (simp_all add: before_publish_def Let_def)

lemma before_publish_other:
  "l' \<noteq> l \<Longrightarrow> batches (before_publish l p r d s) l' = batches s l'"
  "l' \<noteq> l \<Longrightarrow> resolutions l' (calls (before_publish l p r d s)) = resolutions l' (calls s)"
  "l' \<noteq> l \<Longrightarrow> callbacks (OfLoad l') (calls (before_publish l p r d s)) = callbacks (OfLoad l') (calls s)"
  "a \<noteq> lf_pathsNotFound (batches s l) \<Longrightarrow> arrays (before_publish l p r d s) a = arrays s a"
  by (simp_all add: before_publish_def Let_def)

lemma batch_ok_before_publish:
  assumes "batch_ok s l"
  shows "batch_ok (before_publish l p r d s) l"
proof -
  let ?c = "batches s l"
  let ?rs = "resolutions l (calls s)"
  let ?n = "length (lf_paths ?c)"
  let ?x = "(p, r, d)"
  from assms have
    1: "lf_numWaiting ?c = int ?n - int (length (filter terminal ?rs))" and
    2: "arrays s (lf_pathsNotFound ?c) = failed_paths ?rs" and
    3: "callbacks (OfLoad l) (calls s) =
          (if ?n \<noteq> 0 \<and> ?n \<le> length (filter terminal ?rs)
           then [load_call l (lf_args ?c) (failed_paths (upto_terminal ?n ?rs))] else [])"
    by (simp_all add: batch_ok_def Let_def)
  have one: "lf_numWaiting ?c = 1 \<longleftrightarrow> ?n = Suc (length (filter terminal ?rs))"
    using 1 by auto
  have rs': "resolutions l (calls (before_publish l p r d s)) = ?rs @ [?x]"
    by (simp add: before_publish_def Let_def)
  have cb': "callbacks (OfLoad l) (calls (before_publish l p r d s)) =
      callbacks (OfLoad l) (calls s) @
        (if terminal ?x \<and> lf_numWaiting ?c = 1
         then [load_call l (lf_args ?c) (failed_paths (?rs @ [?x]))] else [])"
    by (simp add: before_publish_def Let_def 2)
  have c': "lf_numWaiting (batches (before_publish l p r d s) l) =
      lf_numWaiting ?c - (if terminal ?x then 1 else 0)"
    by (simp add: before_publish_def Let_def)
  have a': "arrays (before_publish l p r d s) (lf_pathsNotFound ?c) = failed_paths (?rs @ [?x])"
    by (simp add: before_publish_def Let_def 2)
  have up: "upto_terminal ?n (?rs @ [?x]) =
      (if ?n \<le> length (filter terminal ?rs) then upto_terminal ?n ?rs else ?rs @ [?x])"
    by (simp add: upto_terminal_append upto_terminal_snoc)
  show ?thesis
    unfolding batch_ok_def Let_def rs' cb' c' a' before_publish_frame up
    by (simp add: 1 3 one)
qed

lemma loads_ok_before_publish:
  assumes ok: "loads_ok s" and l: "l < n_batches s"
  shows "loads_ok (before_publish l p r d s)"
proof (rule loads_okI)
  let ?t = "before_publish l p r d s"
  fix l' assume "n_batches ?t \<le> l'"
  then have "n_batches s \<le> l'" "l' \<noteq> l" using l by simp_all
  then show "callbacks (OfLoad l') (calls ?t) = [] \<and> resolutions l' (calls ?t) = []"
    using loads_okD(2) [OF ok, of l'] by (simp add: before_publish_other)
next
  let ?t = "before_publish l p r d s"
  fix l' assume "l' < n_batches ?t"
  then have l': "l' < n_batches s" by simp
  show "batch_ok ?t l'"
  proof (cases "l' = l")
    case True
    then show ?thesis
      using batch_ok_before_publish [OF loads_okD(3) [OF ok l]] by simp
  next
    case False
    then have "lf_pathsNotFound (batches s l') \<noteq> lf_pathsNotFound (batches s l)"
      using loads_okD(5) [OF ok l' l] by blast
    with False have "batch_ok ?t l' = batch_ok s l'"
      by (intro batch_ok_cong) (simp_all add: before_publish_other)
    then show ?thesis using loads_okD(3) [OF ok l'] by simp
  qed
qed (use ok in \<open>auto simp: loads_ok_def\<close>)

lemma loads_ok_publish:
  assumes ok: "loads_ok s"
    and a: "\<And>b. bid = Some b \<Longrightarrow> b \<noteq> [] \<Longrightarrow>
      a < n_arrays s \<and>
      (\<forall>l < n_batches s. lf_pathsNotFound (batches s l) = a \<longrightarrow> lf_bundleId (batches s l) = Some b)"
  shows "loads_ok (publish bid a s)"
proof (cases "\<exists>b. bid = Some b \<and> b \<noteq> []")
  case False
  with ok show ?thesis by (cases bid) (auto simp: publish_eq)
next
  case True
  then obtain b where b: "bid = Some b" "b \<noteq> []" by blast
  note a' = a [OF b]
  let ?t = "publish (Some b) a s"
  have bo: "batch_ok ?t l = batch_ok s l" for l
    by (rule batch_ok_cong) simp_all
  have "loads_ok ?t"
  proof (rule loads_okI)
    fix b' a'' assume "bundleResultCache ?t b' = Some a''"
    then show "a'' < n_arrays ?t"
      using loads_okD(6) [OF ok, of b' a''] a' b by (auto simp: publish_cache split: if_splits)
  next
    fix b' l assume "l < n_batches ?t"
      and "bundleResultCache ?t b' = Some (lf_pathsNotFound (batches ?t l))"
    then show "lf_bundleId (batches ?t l) = Some b'"
      using loads_okD(7) [OF ok, of l b'] a' b by (auto simp: publish_cache split: if_splits)
  qed (use ok in \<open>auto simp: loads_ok_def bo\<close>)
  then show ?thesis by (simp add: b)
qed

lemma loads_ok_fn_loadFiles:
  assumes ok: "loads_ok s" and l: "l < n_batches s"
  shows "loads_ok (fn_loadFiles l p r d s)"
proof -
  let ?t = "before_publish l p r d s"
  have t: "loads_ok ?t" by (rule loads_ok_before_publish [OF ok l])
  have "loads_ok (publish (lf_bundleId (batches s l)) (lf_pathsNotFound (batches s l)) ?t)"
  proof (rule loads_ok_publish [OF t])
    fix b assume b: "lf_bundleId (batches s l) = Some b" "b \<noteq> []"
    have "lf_pathsNotFound (batches s l) < n_arrays ?t"
      using loads_okD(4) [OF ok l] by simp
    moreover have "lf_bundleId (batches ?t l') = Some b"
      if "l' < n_batches ?t" "lf_pathsNotFound (batches ?t l') = lf_pathsNotFound (batches s l)" for l'
    proof -
      from that have "l' = l" using loads_okD(5) [OF ok _ l, of l'] by simp
      then show ?thesis using b by simp
    qed
    ultimately show "lf_pathsNotFound (batches s l) < n_arrays ?t \<and>
      (\<forall>l' < n_batches ?t. lf_pathsNotFound (batches ?t l') = lf_pathsNotFound (batches s l) \<longrightarrow>
         lf_bundleId (batches ?t l') = Some b)"
      by blast
  qed
  with t show ?thesis by (simp add: fn_loadFiles_before_publish)
qed

lemma loads_ok_loadFiles:
  assumes ok: "loads_ok s" and bid: "\<And>b. bid = Some b \<Longrightarrow> bundleIdCache s b \<noteq> None"
  shows "loads_ok (loadFiles paths bid a asy s)"
proof (rule loads_okI)
  let ?t = "loadFiles paths bid a asy s"
  fix e assume "e \<in> set (head ?t)"
  then show "el_callbackFn e < n_batches ?t"
    using loads_okD(1) [OF ok, of e] by (auto simp: new_element_def less_Suc_eq)
next
  let ?t = "loadFiles paths bid a asy s"
  fix l assume "n_batches ?t \<le> l"
  then show "callbacks (OfLoad l) (calls ?t) = [] \<and> resolutions l (calls ?t) = []"
    using loads_okD(2) [OF ok, of l] by simp
next
  let ?t = "loadFiles paths bid a asy s"
  fix l assume "l < n_batches ?t"
  then consider "l = n_batches s" | "l < n_batches s" by (auto simp: less_Suc_eq)
  then show "batch_ok ?t l"
  proof cases
    case 1
    with loads_okD(2) [OF ok, of l] show ?thesis
      by (simp add: batch_ok_def)
  next
    case 2
    then have "lf_pathsNotFound (batches s l) \<noteq> n_arrays s"
      using loads_okD(4) [OF ok 2] by simp
    with 2 have "batch_ok ?t l = batch_ok s l"
      by (intro batch_ok_cong) simp_all
    then show ?thesis using loads_okD(3) [OF ok 2] by simp
  qed
next
  let ?t = "loadFiles paths bid a asy s"
  fix l assume "l < n_batches ?t"
  then show "lf_pathsNotFound (batches ?t l) < n_arrays ?t"
    using loads_okD(4) [OF ok, of l] by (auto simp: less_Suc_eq)
next
  let ?t = "loadFiles paths bid a asy s"
  fix l l' assume "l < n_batches ?t" "l' < n_batches ?t"
    "lf_pathsNotFound (batches ?t l) = lf_pathsNotFound (batches ?t l')"
  then show "l = l'"
    using loads_okD(4) [OF ok, of l] loads_okD(4) [OF ok, of l'] loads_okD(5) [OF ok, of l l']
    by (auto simp: less_Suc_eq split: if_splits)
next
  let ?t = "loadFiles paths bid a asy s"
  fix b a' assume "bundleResultCache ?t b = Some a'"
  then show "a' < n_arrays ?t"
    using loads_okD(6) [OF ok, of b a'] by simp
next
  let ?t = "loadFiles paths bid a asy s"
  fix b l assume "l < n_batches ?t"
    "bundleResultCache ?t b = Some (lf_pathsNotFound (batches ?t l))"
  then show "lf_bundleId (batches ?t l) = Some b"
    using loads_okD(7) [OF ok, of l b] loads_okD(6) [OF ok, of b "n_arrays s"]
    by (auto simp: less_Suc_eq split: if_splits)
next
  let ?t = "loadFiles paths bid a asy s"
  fix l b assume "l < n_batches ?t" "lf_bundleId (batches ?t l) = Some b"
  then show "bundleIdCache ?t b \<noteq> None"
    using loads_okD(8) [OF ok, of l b] bid by (auto simp: less_Suc_eq split: if_splits)
qed

lemma loads_ok_mark:
  assumes ok: "loads_ok s"
  shows "loads_ok (s\<lparr>bundleIdCache := (bundleIdCache s)(b \<mapsto> True)\<rparr>)"
proof -
  have bo: "batch_ok (s\<lparr>bundleIdCache := (bundleIdCache s)(b \<mapsto> True)\<rparr>) l = batch_ok s l" for l
    by (rule batch_ok_cong) simp_all
  show ?thesis
    by (rule loads_okI) (use ok in \<open>auto simp: loads_ok_def bo\<close>)
qed

lemma loads_ok_exec: "loads_ok s \<Longrightarrow> loads_ok (exec x s)"
proof (cases x)
  case (Loadjs paths a1 a2)
  assume ok: "loads_ok s"
  show ?thesis
  proof (cases "loadjs_bundleId a1")
    case None
    have "loads_ok (loadFiles paths None a asy s)" for a asy
      by (rule loads_ok_loadFiles [OF ok]) simp
    with None show ?thesis by (simp add: Loadjs loadjs_def Let_def)
  next
    case (Some b)
    have "loads_ok (loadFiles paths (Some b) a asy (s\<lparr>bundleIdCache := (bundleIdCache s)(b \<mapsto> True)\<rparr>))"
      for a asy
      by (rule loads_ok_loadFiles [OF loads_ok_mark [OF ok]]) simp
    with ok Some show ?thesis by (simp add: Loadjs loadjs_def Let_def)
  qed
next
  case (Ready deps a)
  assume ok: "loads_ok s"
  have "loads_ok (subscribe deps a s)"
    by (rule loads_ok_frame [OF ok]) simp_all
  then show ?thesis by (simp add: Ready ready_def)
next
  case (Done b)
  assume ok: "loads_ok s"
  let ?t = "s\<lparr>arrays := (arrays s)(n_arrays s := []), n_arrays := Suc (n_arrays s)\<rparr>"
  have bo: "batch_ok ?t l = batch_ok s l" if "l < n_batches s" for l
    using loads_okD(4) [OF ok that] by (intro batch_ok_cong) simp_all
  have t: "loads_ok ?t"
    by (rule loads_okI) (use ok in \<open>auto simp: loads_ok_def bo less_Suc_eq\<close>)
  have "loads_ok (publish (Some b) (n_arrays s) ?t)"
  proof (rule loads_ok_publish [OF t])
    show "n_arrays s < n_arrays ?t \<and>
      (\<forall>l < n_batches ?t. lf_pathsNotFound (batches ?t l) = n_arrays s \<longrightarrow>
         lf_bundleId (batches ?t l) = Some b')" for b'
      using loads_okD(4) [OF ok] by fastforce
  qed
  then show ?thesis by (simp add: Done done_bundle_eq)
next
  case (Fire k ev)
  assume ok: "loads_ok s"
  show ?thesis
  proof (cases "k < length (head s)")
    case True
    then have "el_callbackFn (head s ! k) < n_batches s"
      using loads_okD(1) [OF ok, of "head s ! k"] by simp
    from loads_ok_fn_loadFiles [OF ok this] True show ?thesis
      by (simp add: Fire onevent_def Let_def)
  next
    case False
    with ok show ?thesis by (simp add: Fire onevent_def)
  qed
qed

lemma reachable_loads_ok: "reachable s \<Longrightarrow> loads_ok s"
  by (induction rule: reachable.induct) (simp_all add: loads_ok_init loads_ok_exec)

lemma fn_loadFiles_batch_static [simp]:
  "lf_paths (batches (fn_loadFiles l p r d s) l') = lf_paths (batches s l')"
  "lf_args (batches (fn_loadFiles l p r d s) l') = lf_args (batches s l')"
  "lf_bundleId (batches (fn_loadFiles l p r d s) l') = lf_bundleId (batches s l')"
  "lf_pathsNotFound (batches (fn_loadFiles l p r d s) l') = lf_pathsNotFound (batches s l')"
  by (simp_all add: fn_loadFiles_batches)

lemma exec_batch_static:
  assumes "l < n_batches s"
  shows "l < n_batches (exec x s) \<and>
    lf_paths (batches (exec x s) l) = lf_paths (batches s l) \<and>
    lf_args (batches (exec x s) l) = lf_args (batches s l) \<and>
    lf_bundleId (batches (exec x s) l) = lf_bundleId (batches s l) \<and>
    lf_pathsNotFound (batches (exec x s) l) = lf_pathsNotFound (batches s l)"
proof (cases x)
  case (Loadjs paths a1 a2)
  with assms show ?thesis by (simp add: loadjs_def Let_def split: option.splits)
next
  case (Ready deps a)
  with assms show ?thesis by (simp add: ready_def)
next
  case (Done b)
  with assms show ?thesis by simp
next
  case (Fire k ev)
  with assms show ?thesis by (simp add: onevent_def Let_def)
qed

lemma run_batch_static:
  "l < n_batches s \<Longrightarrow>
   l < n_batches (run ops s) \<and>
   lf_paths (batches (run ops s) l) = lf_paths (batches s l) \<and>
   lf_args (batches (run ops s) l) = lf_args (batches s l) \<and>
   lf_bundleId (batches (run ops s) l) = lf_bundleId (batches s l) \<and>
   lf_pathsNotFound (batches (run ops s) l) = lf_pathsNotFound (batches s l)"
proof (induction ops arbitrary: s)
  case Nil
  then show ?case by simp
next
  case (Cons x ops)
  from exec_batch_static [OF Cons.prems, of x] Cons.IH [of "exec x s"]
  show ?case by simp
qed

lemma loadjs_Inr_eq:
  "loadjs paths a1 a2 s = Inr s1 \<Longrightarrow>
   s1 = loadFiles paths (loadjs_bundleId a1) (loadjs_args a1 a2) (async (loadjs_args a1 a2))
          (case loadjs_bundleId a1 of None \<Rightarrow> s
           | Some b \<Rightarrow> s\<lparr>bundleIdCache := (bundleIdCache s)(b \<mapsto> True)\<rparr>)"
  by (auto simp: loadjs_def Let_def split: option.splits if_splits)

lemma loadjs_Inr_exec: "loadjs paths a1 a2 s = Inr s1 \<Longrightarrow> exec (Loadjs paths a1 a2) s = s1"
  by simp

lemma loadjs_Inr_batch:
  assumes "loadjs paths a1 a2 s = Inr s1"
  shows "n_batches s1 = Suc (n_batches s)"
    and "lf_paths (batches s1 (n_batches s)) = listify paths"
    and "lf_args (batches s1 (n_batches s)) = loadjs_args a1 a2"
    and "lf_bundleId (batches s1 (n_batches s)) = loadjs_bundleId a1"
    and "lf_numWaiting (batches s1 (n_batches s)) = int (length (listify paths))"
    and "lf_pathsNotFound (batches s1 (n_batches s)) = n_arrays s"
    and "head s1 = head s @ map (new_element (n_batches s) (async (loadjs_args a1 a2))) (listify paths)"
    and "calls s1 = calls s"
    and "bundleResultCache s1 = bundleResultCache s"
    and "bundleCallbackQueue s1 = bundleCallbackQueue s"
    and "arrays s1 = (arrays s)(n_arrays s := [])"
    and "subscriptions s1 = subscriptions s"
  unfolding loadjs_Inr_eq [OF assms] by (simp_all split: option.splits)

lemma loadjs_bundleId_nonempty: "loadjs_bundleId a1 = Some b \<Longrightarrow> b \<noteq> []"
  by (auto simp: loadjs_bundleId_def split: arg1.splits if_splits)




lemma set_upto_terminal: "set (upto_terminal n rs) \<subseteq> set rs"
proof (induction rs arbitrary: n)
  case Nil
  then show ?case by simp
next
  case (Cons r rs)
  show ?case
  proof (cases n)
    case 0
    then show ?thesis by simp
  next
    case (Suc m)
    with Cons [of m] Cons [of "Suc m"] show ?thesis by auto
  qed
qed

lemma failed_paths_none:
  "\<forall>x \<in> set rs. \<not> records_failure x \<Longrightarrow> failed_paths (upto_terminal n rs) = []"
  using set_upto_terminal [of n rs] by (auto simp: failed_paths_def filter_empty_conv)

lemma onevent_anonymous:
  assumes k: "k < length (head t)"
    and none: "lf_bundleId (batches t (el_callbackFn (head t ! k))) = None"
    and res: "event_result (head t ! k) ev = CHR ''l''"
  shows "bundleIdCache (onevent k ev t) = bundleIdCache t"
    and "bundleResultCache (onevent k ev t) = bundleResultCache t"
    and "bundleCallbackQueue (onevent k ev t) = bundleCallbackQueue t"
    and "arrays (onevent k ev t) = arrays t"
    and "subscriptions (onevent k ev t) = subscriptions t"
    and "head (onevent k ev t) = head t"
    and "lf_bundleId (batches (onevent k ev t) l) = lf_bundleId (batches t l)"
    and "resolutions l (calls (onevent k ev t)) =
      resolutions l (calls t) @
        (if l = el_callbackFn (head t ! k) then [(el_path (head t ! k), CHR ''l'', defaultPrevented ev)]
         else [])"
  using k none res
  by (simp_all add: onevent_def Let_def fn_loadFiles_before_publish publish_eq
      before_publish_def records_failure_def fun_upd_idem)

lemma run_fires_anonymous:
  assumes "\<forall>(k, ev) \<in> set kes.
      k < length H \<and> el_callbackFn (H ! k) = l \<and> event_result (H ! k) ev = CHR ''l''"
    and "head t = H" and "lf_bundleId (batches t l) = None"
  shows "bundleIdCache (run (map (\<lambda>(k, ev). Fire k ev) kes) t) = bundleIdCache t \<and>
    bundleResultCache (run (map (\<lambda>(k, ev). Fire k ev) kes) t) = bundleResultCache t \<and>
    bundleCallbackQueue (run (map (\<lambda>(k, ev). Fire k ev) kes) t) = bundleCallbackQueue t \<and>
    arrays (run (map (\<lambda>(k, ev). Fire k ev) kes) t) = arrays t \<and>
    subscriptions (run (map (\<lambda>(k, ev). Fire k ev) kes) t) = subscriptions t \<and>
    resolutions l (calls (run (map (\<lambda>(k, ev). Fire k ev) kes) t)) =
      resolutions l (calls t) @ map (\<lambda>(k, ev). (el_path (H ! k), CHR ''l'', defaultPrevented ev)) kes"
  using assms
proof (induction kes arbitrary: t)
  case Nil
  then show ?case by simp
next
  case (Cons x kes)
  obtain k ev where x: "x = (k, ev)" by (cases x)
  from Cons.prems x have k: "k < length (head t)"
    and l: "el_callbackFn (head t ! k) = l"
    and res: "event_result (head t ! k) ev = CHR ''l''"
    by auto
  from Cons.prems(3) l have none: "lf_bundleId (batches t (el_callbackFn (head t ! k))) = None"
    by simp
  note ev = onevent_anonymous [OF k none res]
  have "\<forall>(k, ev) \<in> set kes.
      k < length H \<and> el_callbackFn (H ! k) = l \<and> event_result (H ! k) ev = CHR ''l''"
    using Cons.prems(1) by simp
  moreover have "head (onevent k ev t) = H" using ev(6) Cons.prems(2) by simp
  moreover have "lf_bundleId (batches (onevent k ev t) l) = None"
    using ev(7) [of l] Cons.prems(3) by simp
  ultimately show ?case
    using Cons.IH [of "onevent k ev t"] ev(1-5) ev(8) [of l] l Cons.prems(2)
    by (simp add: x)
qed

lemma publish_cache_other:
  "bid \<noteq> Some b \<Longrightarrow> bundleResultCache (publish bid a s) b = bundleResultCache s b"
  by (cases bid) (auto simp: publish_eq split: option.splits)

lemma publish_cache_mono:
  "\<exists>y. bundleResultCache s b = Some y \<Longrightarrow> \<exists>y. bundleResultCache (publish bid a s) b = Some y"
  by (cases bid) (auto simp: publish_eq split: option.splits)

lemma fn_loadFiles_cache_other:
  "lf_bundleId (batches s l) \<noteq> Some b \<Longrightarrow>
   bundleResultCache (fn_loadFiles l p r d s) b = bundleResultCache s b"
  by (simp add: fn_loadFiles_before_publish publish_cache_other)

lemma fn_loadFiles_cache_mono:
  "\<exists>y. bundleResultCache s b = Some y \<Longrightarrow>
   \<exists>y. bundleResultCache (fn_loadFiles l p r d s) b = Some y"
  by (simp add: fn_loadFiles_before_publish publish_cache_mono)

lemma exec_cache_mono:
  assumes "\<exists>y. bundleResultCache s b = Some y"
  shows "\<exists>y. bundleResultCache (exec x s) b = Some y"
proof (cases x)
  case (Loadjs paths a1 a2)
  with assms show ?thesis
    by (cases "loadjs paths a1 a2 s") (simp_all add: loadjs_Inr_batch)
next
  case (Ready deps a)
  with assms show ?thesis by (simp add: ready_def)
next
  case (Done b')
  with assms show ?thesis by (simp add: done_bundle_eq publish_cache_mono)
next
  case (Fire k ev)
  with assms show ?thesis by (simp add: onevent_def Let_def fn_loadFiles_cache_mono)
qed

lemma run_cache_mono:
  "\<exists>y. bundleResultCache s b = Some y \<Longrightarrow> \<exists>y. bundleResultCache (run ops s) b = Some y"
proof (induction ops arbitrary: s)
  case Nil
  then show ?case by simp
next
  case (Cons x ops)
  from Cons.prems have "\<exists>y. bundleResultCache (exec x s) b = Some y"
    by (rule exec_cache_mono)
  then have "\<exists>y. bundleResultCache (run ops (exec x s)) b = Some y"
    by (rule Cons.IH)
  then show ?case by simp
qed

section \<open>The claims\<close>

subsection \<open>C1: the callback of subscribe\<close>



subsection \<open>C2: the wait counter of loadFiles\<close>

text \<open>
  C2. \<^verbatim>\<open>loadFiles\<close> starts its counter \<^verbatim>\<open>numWaiting\<close> at the number of paths, with an
  empty list of failed paths. A call of its handler with result \<^verbatim>\<open>'b'\<close> and
  \<^verbatim>\<open>defaultPrevented\<close> false is not terminal and records nothing; \<^verbatim>\<open>'b'\<close> with
  \<^verbatim>\<open>defaultPrevented\<close> true and \<^verbatim>\<open>'e'\<close> are terminal and record the path; \<^verbatim>\<open>'l'\<close>
  is terminal and records nothing. A terminal call takes one from the counter, a call
  that records appends its path to the failed paths, and the callback of the
  \<^verbatim>\<open>loadFiles\<close> call is called in a handler call exactly when that call is terminal
  and brings the counter to zero.
\<close>

theorem loadFiles_wait_counter:
  "lf_numWaiting (batches (loadFiles paths bid a asy s0) (n_batches s0)) = int (length (listify paths)) \<and>
   arrays (loadFiles paths bid a asy s0)
     (lf_pathsNotFound (batches (loadFiles paths bid a asy s0) (n_batches s0))) = [] \<and>
   \<not> terminal (p, CHR ''b'', False) \<and> \<not> records_failure (p, CHR ''b'', False) \<and>
   terminal (p, CHR ''b'', True) \<and> records_failure (p, CHR ''b'', True) \<and>
   terminal (p, CHR ''e'', d) \<and> records_failure (p, CHR ''e'', d) \<and>
   terminal (p, CHR ''l'', d) \<and> \<not> records_failure (p, CHR ''l'', d) \<and>
   lf_numWaiting (batches (fn_loadFiles l p r d s) l) =
     lf_numWaiting (batches s l) - (if terminal (p, r, d) then 1 else 0) \<and>
   arrays (fn_loadFiles l p r d s) (lf_pathsNotFound (batches s l)) =
     arrays s (lf_pathsNotFound (batches s l)) @ (if records_failure (p, r, d) then [p] else []) \<and>
   callbacks (OfLoad l) (calls (fn_loadFiles l p r d s)) =
     callbacks (OfLoad l) (calls s) @
       (if terminal (p, r, d) \<and> lf_numWaiting (batches s l) - 1 = 0
        then [load_call l (lf_args (batches s l))
                (arrays (fn_loadFiles l p r d s) (lf_pathsNotFound (batches s l)))]
        else [])"
  by (simp add: fn_loadFiles_batches fn_loadFiles_arrays fn_loadFiles_callbacks)
     (simp add: terminal_def records_failure_def)

theorem loadFiles_wait_counter_witness:
  "lf_numWaiting (batches (loadFiles (Many [''a.js'', ''b.js'']) None empty_args None init) 0) = 2 \<and>
   lf_numWaiting (batches (fn_loadFiles 0 ''a.js'' (CHR ''e'') False
      (loadFiles (One ''a.js'') None empty_args None init)) 0) = 0 \<and>
   arrays (fn_loadFiles 0 ''a.js'' (CHR ''e'') False
      (loadFiles (One ''a.js'') None empty_args None init)) 0 = [''a.js''] \<and>
   callbacks (OfLoad 0) (calls (fn_loadFiles 0 ''a.js'' (CHR ''e'') False
      (loadFiles (One ''a.js'') None empty_args None init))) = [Fail (OfLoad 0) None [''a.js'']]"
  using loadFiles_wait_counter [where paths = "Many [''a.js'', ''b.js'']" and bid = None
      and a = empty_args and asy = None and ?s0.0 = init and l = 0 and p = "''a.js''"
      and r = "CHR ''e''" and d = False
      and s = "loadFiles (One ''a.js'') None empty_args None init"]
  by (simp add: eval_defs fn_loadFiles_eq terminal_def records_failure_def)

subsection \<open>C3: the callback of a load\<close>

text \<open>
  C3, as amended. Take a \<^verbatim>\<open>loadjs\<close> call with at least one path that does not throw,
  made in a reachable state, and any operations after it. The counter of the call is
  the number of paths less the number of terminal calls of its handler. As long as
  there have been fewer terminal calls than paths, neither \<^verbatim>\<open>success\<close> nor \<^verbatim>\<open>fail\<close> has
  been called; from then on exactly one of them has been called, once: \<^verbatim>\<open>success\<close> if
  no failure had been recorded up to the terminal call that completed the count, and
  otherwise \<^verbatim>\<open>fail\<close> with the paths recorded up to it. With no callback in the options
  the call goes to \<^verbatim>\<open>devnull\<close>. In the handler call that brings a counter to zero, the
  call of \<^verbatim>\<open>success\<close> or \<^verbatim>\<open>fail\<close> comes first, on a registry that is still as before,
  and \<^verbatim>\<open>publish\<close> follows.
\<close>

theorem load_callback_once:
  assumes "reachable s0" and "listify paths \<noteq> []" and "loadjs paths a1 a2 s0 = Inr s1"
  shows "(let l = n_batches s0;
              s = run ops s1;
              rs = resolutions l (calls s);
              n = length (listify paths)
          in lf_numWaiting (batches s l) = int n - int (length (filter terminal rs)) \<and>
             callbacks (OfLoad l) (calls s) =
               (if n \<le> length (filter terminal rs)
                then [load_call l (loadjs_args a1 a2) (failed_paths (upto_terminal n rs))]
                else [])) \<and>
         load_call l' empty_args xs =
           (if xs = [] then Success (OfLoad l') None else Fail (OfLoad l') None xs) \<and>
         (terminal (p, r, d) \<and> lf_numWaiting (batches t l') = 1 \<longrightarrow>
            (\<exists>u. fn_loadFiles l' p r d t =
                   publish (lf_bundleId (batches t l')) (lf_pathsNotFound (batches t l')) u \<and>
                 calls u = calls t @
                   [Fn_loadFiles l' p r d,
                    load_call l' (lf_args (batches t l')) (arrays u (lf_pathsNotFound (batches t l')))] \<and>
                 bundleResultCache u = bundleResultCache t \<and>
                 bundleCallbackQueue u = bundleCallbackQueue t \<and>
                 subscriptions u = subscriptions t))"
proof -
  define l where "l = n_batches s0"
  define s where "s = run ops s1"
  have "reachable s1"
    using reachable_exec [OF assms(1), of "Loadjs paths a1 a2"] assms(3) by simp
  then have ok: "loads_ok s"
    unfolding s_def by (intro reachable_loads_ok reachable_run)
  have "l < n_batches s1"
    by (simp add: l_def loadjs_Inr_batch [OF assms(3)])
  from run_batch_static [OF this, of ops]
  have l: "l < n_batches s"
    and ps: "lf_paths (batches s l) = listify paths"
    and args: "lf_args (batches s l) = loadjs_args a1 a2"
    by (simp_all add: s_def l_def loadjs_Inr_batch [OF assms(3)])
  from loads_okD(3) [OF ok l] have
    "lf_numWaiting (batches s l) =
       int (length (listify paths)) - int (length (filter terminal (resolutions l (calls s))))"
    "callbacks (OfLoad l) (calls s) =
       (if length (listify paths) \<le> length (filter terminal (resolutions l (calls s)))
        then [load_call l (loadjs_args a1 a2)
                (failed_paths (upto_terminal (length (listify paths)) (resolutions l (calls s))))]
        else [])"
    using assms(2) by (simp_all add: batch_ok_def Let_def ps args)
  then have 1: "let l = n_batches s0; s = run ops s1; rs = resolutions l (calls s);
      n = length (listify paths)
    in lf_numWaiting (batches s l) = int n - int (length (filter terminal rs)) \<and>
       callbacks (OfLoad l) (calls s) =
         (if n \<le> length (filter terminal rs)
          then [load_call l (loadjs_args a1 a2) (failed_paths (upto_terminal n rs))]
          else [])"
    by (simp add: Let_def l_def s_def)
  have 2: "load_call l' empty_args xs =
      (if xs = [] then Success (OfLoad l') None else Fail (OfLoad l') None xs)"
    by (simp add: load_call_def empty_args_def)
  have 3: "\<exists>u. fn_loadFiles l' p r d t =
        publish (lf_bundleId (batches t l')) (lf_pathsNotFound (batches t l')) u \<and>
      calls u = calls t @
        [Fn_loadFiles l' p r d,
         load_call l' (lf_args (batches t l')) (arrays u (lf_pathsNotFound (batches t l')))] \<and>
      bundleResultCache u = bundleResultCache t \<and>
      bundleCallbackQueue u = bundleCallbackQueue t \<and>
      subscriptions u = subscriptions t"
    if "terminal (p, r, d)" "lf_numWaiting (batches t l') = 1"
    using that
    by (intro exI [of _ "before_publish l' p r d t"])
       (simp add: fn_loadFiles_before_publish, simp add: before_publish_def Let_def)
  from 1 2 3 show ?thesis by blast
qed

theorem load_callback_once_witness:
  "reachable init \<and> listify (Many [''a.js'', ''b.js'', ''c.js'']) \<noteq> [] \<and>
   loadjs (Many [''a.js'', ''b.js'', ''c.js'']) (Obj \<lparr>success = Some 1, fail = Some 2, async = None\<rparr>) None init =
     Inr (exec (Loadjs (Many [''a.js'', ''b.js'', ''c.js''])
           (Obj \<lparr>success = Some 1, fail = Some 2, async = None\<rparr>) None) init) \<and>
   callbacks (OfLoad 0)
     (calls (run [Fire 0 (plain_event Load), Fire 1 (plain_event Error), Fire 2 (plain_event Load)]
        (exec (Loadjs (Many [''a.js'', ''b.js'', ''c.js''])
           (Obj \<lparr>success = Some 1, fail = Some 2, async = None\<rparr>) None) init))) =
     [Fail (OfLoad 0) (Some 2) [''b.js'']]"
proof -
  let ?a = "\<lparr>success = Some 1, fail = Some 2, async = None\<rparr>"
  let ?ps = "Many [''a.js'', ''b.js'', ''c.js'']"
  let ?s1 = "exec (Loadjs ?ps (Obj ?a) None) init"
  have s1: "loadjs ?ps (Obj ?a) None init = Inr ?s1"
    by (simp add: loadjs_def loadjs_bundleId_def Let_def)
  have ne: "listify ?ps \<noteq> []" by simp
  have "callbacks (OfLoad 0)
     (calls (run [Fire 0 (plain_event Load), Fire 1 (plain_event Error), Fire 2 (plain_event Load)] ?s1)) =
     [Fail (OfLoad 0) (Some 2) [''b.js'']]"
    using load_callback_once [OF reachable_init _ s1,
        of "[Fire 0 (plain_event Load), Fire 1 (plain_event Error), Fire 2 (plain_event Load)]"]
    by (simp add: eval_defs fn_loadFiles_eq terminal_def records_failure_def plain_event_def
        new_element_def)
  with reachable_init ne s1 show ?thesis by blast
qed

text \<open>
  C3 as stated, for every load call, fails for a call with no paths: no unit is
  dispatched, so all of them have resolved, and neither \<^verbatim>\<open>success\<close> nor \<^verbatim>\<open>fail\<close> is
  called, then or after a later event.
\<close>

theorem load_no_paths_counterexample:
  "head (exec (Loadjs (Many []) (Obj \<lparr>success = Some 1, fail = Some 2, async = None\<rparr>) None) init) = [] \<and>
   callbacks (OfLoad 0)
     (calls (run [Fire 0 (plain_event Load)]
        (exec (Loadjs (Many []) (Obj \<lparr>success = Some 1, fail = Some 2, async = None\<rparr>) None) init))) = []"
  by (simp add: eval_defs)

subsection \<open>C4: a bundle id is used once\<close>




subsection \<open>C5: publish\<close>



subsection \<open>C6: the recorded result\<close>

text \<open>
  C6, as amended. In a reachable state, let bundle id \<open>b\<close> have the result \<open>xs\<close>. The
  result of \<open>b\<close> is still \<open>xs\<close> after a \<^verbatim>\<open>ready\<close> call, after a \<^verbatim>\<open>loadjs\<close> call, after
  \<^verbatim>\<open>done\<close> for another id, and after an event for an element of a load that was not
  made for \<open>b\<close>. After \<^verbatim>\<open>done(b)\<close> the result of \<open>b\<close> is the empty list. Whatever
  happens, \<open>b\<close> keeps having a result, and a \<^verbatim>\<open>ready\<close> call for \<open>b\<close> gets the result
  recorded at the time of the call.
\<close>

theorem result_replaced_only_by_publish:
  assumes "reachable s" and "result_of s b = Some xs"
  shows "result_of (exec (Ready deps a) s) b = Some xs \<and>
         result_of (exec (Loadjs paths a1 a2) s) b = Some xs \<and>
         (b' \<noteq> b \<longrightarrow> result_of (exec (Done b') s) b = Some xs) \<and>
         ((k < length (head s) \<longrightarrow>
             lf_bundleId (batches s (el_callbackFn (head s ! k))) \<noteq> Some b) \<longrightarrow>
            result_of (exec (Fire k ev) s) b = Some xs) \<and>
         (b \<noteq> [] \<longrightarrow> result_of (exec (Done b) s) b = Some []) \<and>
         bundleResultCache (run ops s) b \<noteq> None \<and>
         calls (ready (One b) a s) =
           calls s @ [Fn_subscribe (n_subscriptions s) b xs,
                      ready_call (n_subscriptions s) a (if xs = [] then [] else [b])]"
proof -
  note ok = reachable_loads_ok [OF assms(1)]
  from assms(2) obtain r where r: "bundleResultCache s b = Some r" and xs: "arrays s r = xs"
    by (auto simp: result_of_def)
  from loads_okD(6) [OF ok r] have lt: "r < n_arrays s" .
  have 1: "result_of (exec (Ready deps a) s) b = Some xs"
    using r xs by (simp add: result_of_def ready_def)
  have 2: "result_of (exec (Loadjs paths a1 a2) s) b = Some xs"
  proof (cases "loadjs paths a1 a2 s")
    case (Inl e)
    with assms(2) show ?thesis by simp
  next
    case (Inr s1)
    with r xs lt show ?thesis by (simp add: result_of_def loadjs_Inr_batch [OF Inr])
  qed
  have 3: "result_of (exec (Done b') s) b = Some xs" if "b' \<noteq> b"
    using that r xs lt by (simp add: result_of_def done_bundle_eq publish_cache_other)
  have 4: "result_of (exec (Fire k ev) s) b = Some xs"
    if "k < length (head s) \<longrightarrow> lf_bundleId (batches s (el_callbackFn (head s ! k))) \<noteq> Some b"
  proof (cases "k < length (head s)")
    case False
    with assms(2) show ?thesis by (simp add: onevent_def)
  next
    case True
    let ?l = "el_callbackFn (head s ! k)"
    from True that have ne: "lf_bundleId (batches s ?l) \<noteq> Some b" by simp
    have l: "?l < n_batches s" using loads_okD(1) [OF ok, of "head s ! k"] True by simp
    have "lf_pathsNotFound (batches s ?l) \<noteq> r"
      using loads_okD(7) [OF ok l, of b] r ne by auto
    with True r xs ne show ?thesis
      by (simp add: result_of_def onevent_def Let_def fn_loadFiles_cache_other fn_loadFiles_arrays)
  qed
  have 5: "result_of (exec (Done b) s) b = Some []" if "b \<noteq> []"
    using that by (simp add: result_of_def done_bundle_eq publish_cache)
  have 6: "bundleResultCache (run ops s) b \<noteq> None"
    using run_cache_mono [of s b ops] r by simp
  have 7: "calls (ready (One b) a s) =
      calls s @ [Fn_subscribe (n_subscriptions s) b xs,
                 ready_call (n_subscriptions s) a (if xs = [] then [] else [b])]"
    using r xs by (simp add: ready_def subscribe_def Let_def fn_subscribe_eq)
  from 1 2 3 4 5 6 7 show ?thesis by blast
qed

theorem result_replaced_only_by_publish_witness:
  "reachable (run [Loadjs (One ''x.js'') (Str ''b1'') None, Fire 0 (plain_event Error)] init) \<and>
   result_of (run [Loadjs (One ''x.js'') (Str ''b1'') None, Fire 0 (plain_event Error)] init) ''b1''
     = Some [''x.js''] \<and>
   result_of (exec (Done ''b2'')
     (run [Loadjs (One ''x.js'') (Str ''b1'') None, Fire 0 (plain_event Error)] init)) ''b1''
     = Some [''x.js''] \<and>
   calls (ready (One ''b1'') \<lparr>success = Some 1, fail = Some 2, async = None\<rparr>
     (run [Loadjs (One ''x.js'') (Str ''b1'') None, Fire 0 (plain_event Error)] init)) =
     [Fn_loadFiles 0 ''x.js'' (CHR ''e'') False, Fail (OfLoad 0) None [''x.js''],
      Fn_subscribe 0 ''b1'' [''x.js''], Fail (OfReady 0) (Some 2) [''b1'']]"
proof -
  let ?s = "run [Loadjs (One ''x.js'') (Str ''b1'') None, Fire 0 (plain_event Error)] init"
  have r: "reachable ?s" by (rule reachable_run [OF reachable_init])
  have x: "result_of ?s ''b1'' = Some [''x.js'']"
    by (simp add: result_of_def eval_defs fn_loadFiles_eq terminal_def records_failure_def
        plain_event_def new_element_def)
  have "result_of (exec (Done ''b2'') ?s) ''b1'' = Some [''x.js''] \<and>
    calls (ready (One ''b1'') \<lparr>success = Some 1, fail = Some 2, async = None\<rparr> ?s) =
     [Fn_loadFiles 0 ''x.js'' (CHR ''e'') False, Fail (OfLoad 0) None [''x.js''],
      Fn_subscribe 0 ''b1'' [''x.js''], Fail (OfReady 0) (Some 2) [''b1'']]"
    using result_replaced_only_by_publish [OF r x, of "One ''b1''"
        "\<lparr>success = Some 1, fail = Some 2, async = None\<rparr>" "One ''y.js''" Undefined None
        "''b2''" 0 "plain_event Load" "[]"]
    by (simp add: eval_defs fn_loadFiles_eq terminal_def records_failure_def
        plain_event_def new_element_def)
  with r x show ?thesis by blast
qed

text \<open>
  C6 as stated, that no later operation replaces the recorded result, fails:
  \<^verbatim>\<open>publish\<close> assigns \<^verbatim>\<open>bundleResultCache[bundleId]\<close> whether or not there is a result,
  so \<^verbatim>\<open>done\<close> for an id whose load has failed replaces the failed paths by the empty
  list, and a later subscriber has \<^verbatim>\<open>success\<close> called.
\<close>

theorem result_replaced_by_done_counterexample:
  "result_of (run [Loadjs (One ''x.js'') (Str ''b1'') None, Fire 0 (plain_event Error)] init) ''b1''
     = Some [''x.js''] \<and>
   result_of (run [Loadjs (One ''x.js'') (Str ''b1'') None, Fire 0 (plain_event Error),
                   Done ''b1''] init) ''b1'' = Some [] \<and>
   callbacks (OfReady 0)
     (calls (run [Loadjs (One ''x.js'') (Str ''b1'') None, Fire 0 (plain_event Error),
                  Done ''b1'', Ready (One ''b1'') \<lparr>success = Some 1, fail = Some 2, async = None\<rparr>]
               init)) = [Success (OfReady 0) (Some 1)]"
  by (simp add: result_of_def eval_defs fn_loadFiles_eq terminal_def records_failure_def
      plain_event_def new_element_def)

subsection \<open>C7: done\<close>




subsection \<open>C8: a load without a bundle id\<close>

text \<open>
  C8, as amended. Take a \<^verbatim>\<open>loadjs\<close> call without a bundle id and with at least one
  path, made in a reachable state, and let every element it appended receive one
  event, in any order, that its handler reads as \<^verbatim>\<open>'l'\<close>. Then \<^verbatim>\<open>success\<close> (or
  \<^verbatim>\<open>devnull\<close> in its place) has been called, once and as the only callback of the call,
  and \<^verbatim>\<open>bundleIdCache\<close>, \<^verbatim>\<open>bundleResultCache\<close> and \<^verbatim>\<open>bundleCallbackQueue\<close> are as they
  were before the call, as are the arrays that existed then.
\<close>

theorem anonymous_load_success:
  assumes "reachable s0" and "loadjs_bundleId a1 = None" and "listify paths \<noteq> []"
    and "distinct (map fst kes)"
    and "set (map fst kes) = {length (head s0) ..< length (head s0) + length (listify paths)}"
    and "\<forall>(k, ev) \<in> set kes.
           event_result (new_element (n_batches s0) (async (loadjs_args a1 a2))
             (listify paths ! (k - length (head s0)))) ev = CHR ''l''"
  shows "\<exists>s1. loadjs paths a1 a2 s0 = Inr s1 \<and>
           (let s = run (map (\<lambda>(k, ev). Fire k ev) kes) s1
            in callbacks (OfLoad (n_batches s0)) (calls s) =
                 [Success (OfLoad (n_batches s0)) (success (loadjs_args a1 a2))] \<and>
               bundleIdCache s = bundleIdCache s0 \<and>
               bundleResultCache s = bundleResultCache s0 \<and>
               bundleCallbackQueue s = bundleCallbackQueue s0 \<and>
               (\<forall>a < n_arrays s0. arrays s a = arrays s0 a))"
proof -
  define a where "a = loadjs_args a1 a2"
  define ps where "ps = listify paths"
  define h where "h = length (head s0)"
  define l where "l = n_batches s0"
  define s1 where "s1 = loadFiles paths None a (async a) s0"
  define H where "H = head s0 @ map (new_element l (async a)) ps"
  define ops where "ops = map (\<lambda>(k, ev). Fire k ev) kes"
  define s where "s = run ops s1"
  have s1: "loadjs paths a1 a2 s0 = Inr s1"
    using assms(2) by (simp add: loadjs_def Let_def s1_def a_def)
  have "reachable s1"
    using reachable_exec [OF assms(1), of "Loadjs paths a1 a2"] s1 by simp
  then have ok: "loads_ok s" unfolding s_def by (intro reachable_loads_ok reachable_run)
  have head1: "head s1 = H" by (simp add: s1_def H_def l_def ps_def)
  have el: "k < length H \<and> el_callbackFn (H ! k) = l \<and> event_result (H ! k) ev = CHR ''l''"
    if "(k, ev) \<in> set kes" for k ev
  proof -
    from that have "k \<in> set (map fst kes)" by force
    with assms(5) have k: "h \<le> k" "k < h + length ps" by (simp_all add: h_def ps_def)
    then have "H ! k = new_element l (async a) (ps ! (k - h))"
      by (simp add: H_def nth_append h_def)
    with k that assms(6) show ?thesis
      by (auto simp: H_def h_def l_def a_def ps_def new_element_def)
  qed
  then have all: "\<forall>(k, ev) \<in> set kes.
      k < length H \<and> el_callbackFn (H ! k) = l \<and> event_result (H ! k) ev = CHR ''l''"
    by blast
  have none: "lf_bundleId (batches s1 l) = None" by (simp add: s1_def l_def)
  note fr = run_fires_anonymous [OF all head1 none, folded ops_def s_def]
  have "resolutions l (calls s0) = []"
    using loads_okD(2) [OF reachable_loads_ok [OF assms(1)], of l] by (simp add: l_def)
  then have rs: "resolutions l (calls s) =
      map (\<lambda>(k, ev). (el_path (H ! k), CHR ''l'', defaultPrevented ev)) kes"
    using fr by (simp add: s1_def)
  have tm: "filter terminal (resolutions l (calls s)) = resolutions l (calls s)"
    unfolding rs by (auto simp: terminal_def filter_id_conv)
  have nofail: "\<forall>x \<in> set (resolutions l (calls s)). \<not> records_failure x"
    unfolding rs by (auto simp: records_failure_def)
  have "length kes = length (map fst kes)" by simp
  also have "\<dots> = card (set (map fst kes))" using distinct_card [OF assms(4)] by simp
  also have "\<dots> = length ps" unfolding assms(5) by (simp add: ps_def)
  finally have len: "length (resolutions l (calls s)) = length ps" by (simp add: rs)
  have "l < n_batches s1" by (simp add: s1_def l_def)
  from run_batch_static [OF this, of ops]
  have l: "l < n_batches s" and lps: "lf_paths (batches s l) = ps"
    and largs: "lf_args (batches s l) = a"
    by (simp_all add: s_def s1_def l_def ps_def)
  from loads_okD(3) [OF ok l] assms(3)
  have cb: "callbacks (OfLoad l) (calls s) = [Success (OfLoad l) (success a)]"
    by (simp add: batch_ok_def Let_def lps largs tm len failed_paths_none [OF nofail]
        load_call_def ps_def)
  have "bundleIdCache s = bundleIdCache s0" "bundleResultCache s = bundleResultCache s0"
    "bundleCallbackQueue s = bundleCallbackQueue s0" "\<forall>a < n_arrays s0. arrays s a = arrays s0 a"
    using fr by (simp_all add: s1_def)
  with s1 cb show ?thesis
    unfolding Let_def s_def ops_def l_def a_def by blast
qed

theorem anonymous_load_success_witness:
  "reachable init \<and> loadjs_bundleId Undefined = None \<and> listify (Many [''a.js'', ''b.css'']) \<noteq> [] \<and>
   distinct (map fst [(1::nat, plain_event Load), (0, plain_event Load)]) \<and>
   set (map fst [(1::nat, plain_event Load), (0, plain_event Load)]) =
     {length (head init) ..< length (head init) + length (listify (Many [''a.js'', ''b.css'']))} \<and>
   callbacks (OfLoad 0)
     (calls (run [Fire 1 (plain_event Load), Fire 0 (plain_event Load)]
        (exec (Loadjs (Many [''a.js'', ''b.css'']) Undefined None) init))) =
     [Success (OfLoad 0) None] \<and>
   bundleIdCache (run [Fire 1 (plain_event Load), Fire 0 (plain_event Load)]
        (exec (Loadjs (Many [''a.js'', ''b.css'']) Undefined None) init)) = Map.empty"
proof -
  let ?kes = "[(1::nat, plain_event Load), (0, plain_event Load)]"
  let ?ps = "Many [''a.js'', ''b.css'']"
  have h: "loadjs_bundleId Undefined = None" "listify ?ps \<noteq> []" "distinct (map fst ?kes)"
    "set (map fst ?kes) = {length (head init) ..< length (head init) + length (listify ?ps)}"
    by (auto simp: loadjs_bundleId_def init_def)
  have e: "\<forall>(k, ev) \<in> set ?kes.
     event_result (new_element (n_batches init) (async (loadjs_args Undefined None))
       (listify ?ps ! (k - length (head init)))) ev = CHR ''l''"
    by (simp add: event_result_def plain_event_def new_element_def)
  have "callbacks (OfLoad 0)
     (calls (run [Fire 1 (plain_event Load), Fire 0 (plain_event Load)]
        (exec (Loadjs ?ps Undefined None) init))) = [Success (OfLoad 0) None] \<and>
    bundleIdCache (run [Fire 1 (plain_event Load), Fire 0 (plain_event Load)]
        (exec (Loadjs ?ps Undefined None) init)) = Map.empty"
    using anonymous_load_success [OF reachable_init h e]
    by (simp add: eval_defs fn_loadFiles_eq terminal_def records_failure_def plain_event_def
        new_element_def)
  with reachable_init h show ?thesis by blast
qed

text \<open>
  C8 as stated, for every load call without a bundle id, fails for a call with no
  paths: none of them fails to resolve, and \<^verbatim>\<open>success\<close> is not called.
\<close>

theorem anonymous_load_no_paths_counterexample:
  "loadjs_bundleId Undefined = None \<and>
   head (exec (Loadjs (Many []) Undefined None) init) = [] \<and>
   calls (exec (Loadjs (Many []) Undefined None) init) = [] \<and>
   calls (run [Fire 0 (plain_event Load)] (exec (Loadjs (Many []) Undefined None) init)) = []"
  by (simp add: eval_defs)

subsection \<open>C9: ready with no bundle id\<close>

text \<open>
  C9. A call of \<^verbatim>\<open>ready\<close> with the empty list starts its counter at zero, calls
  nothing and queues nothing, and its callback is not called by any operations that
  follow either.
\<close>

theorem ready_empty_never_calls:
  assumes "reachable s0"
  shows "sub_numWaiting (subscriptions (ready (Many []) a s0) (n_subscriptions s0)) = 0 \<and>
         calls (ready (Many []) a s0) = calls s0 \<and>
         bundleCallbackQueue (ready (Many []) a s0) = bundleCallbackQueue s0 \<and>
         callbacks (OfReady (n_subscriptions s0)) (calls (run ops (ready (Many []) a s0))) = []"
proof -
  define w where "w = n_subscriptions s0"
  define s where "s = run ops (ready (Many []) a s0)"
  have "reachable (ready (Many []) a s0)"
    using reachable_exec [OF assms(1), of "Ready (Many []) a"] by simp
  then have ok: "subs_ok s"
    unfolding s_def by (intro reachable_subs_ok reachable_run)
  have "w < n_subscriptions (ready (Many []) a s0)"
    by (simp add: w_def ready_new_subscription)
  from run_subscription_static [OF this, of ops]
  have w: "w < n_subscriptions s"
    and ids: "sub_bundleIds (subscriptions s w) = []"
    by (simp_all add: s_def w_def ready_new_subscription)
  from subs_okD(3) [OF ok w] ids have "callbacks (OfReady w) (calls s) = []"
    by (simp add: sub_ok_def Let_def)
  moreover have "sub_numWaiting (subscriptions (ready (Many []) a s0) (n_subscriptions s0)) = 0"
    "calls (ready (Many []) a s0) = calls s0"
    "bundleCallbackQueue (ready (Many []) a s0) = bundleCallbackQueue s0"
    by (simp_all add: ready_def subscribe_def Let_def)
  ultimately show ?thesis
    by (simp add: w_def s_def)
qed

theorem ready_empty_never_calls_witness:
  "reachable init \<and>
   callbacks (OfReady 0)
     (calls (run [Done ''x'', Loadjs (One ''a.js'') Undefined None, Fire 0 (plain_event Load)]
              (ready (Many []) \<lparr>success = Some 1, fail = Some 2, async = None\<rparr> init))) = []"
proof -
  have "callbacks (OfReady 0)
     (calls (run [Done ''x'', Loadjs (One ''a.js'') Undefined None, Fire 0 (plain_event Load)]
              (ready (Many []) \<lparr>success = Some 1, fail = Some 2, async = None\<rparr> init))) = []"
    using ready_empty_never_calls [OF reachable_init,
      of "\<lparr>success = Some 1, fail = Some 2, async = None\<rparr>"
         "[Done ''x'', Loadjs (One ''a.js'') Undefined None, Fire 0 (plain_event Load)]"]
    by (simp add: init_def)
  with reachable_init show ?thesis by simp
qed

subsection \<open>C10: a load with no paths\<close>




end
